theory Spec2Isabelle
  imports Main "HOL-Library.Word"
begin

unbundle bit_operations_syntax

section \<open>The VHCI to stpbt bridge (src/src/vhci_stpbt_bridge.c)\<close>

text \<open>
  The bridge copies H4-framed HCI packets between two character devices. Each direction
  keeps a fixed array of \<open>BUF_SIZE\<close> bytes and an \<open>int\<close> counting the pending bytes at
  its front. The model keeps both: an array is a byte list (of length \<open>BUF_SIZE\<close>), a
  length is an \<open>int\<close> as in the C code (its values stay between 0 and 4096, far from the
  limits of a C int). Everything the program does to the outside (writes, messages on
  stderr, the hex dump of verbose mode, closing an endpoint) is returned as a list of
  effects in program order; everything the outside does to the program (what a read or
  a write returns, what select reports, the value of the flag \<open>running\<close>) is an argument.
  The start-up banners printed on stdout are left out.
\<close>

subsection \<open>Constants\<close>

type_synonym byte = "8 word"

definition BUF_SIZE :: int where
  "BUF_SIZE = 4096"

definition HCI_COMMAND_PKT :: byte where
  "HCI_COMMAND_PKT = 0x01"

definition HCI_ACLDATA_PKT :: byte where
  "HCI_ACLDATA_PKT = 0x02"

definition HCI_SCODATA_PKT :: byte where
  "HCI_SCODATA_PKT = 0x03"

definition HCI_EVENT_PKT :: byte where
  "HCI_EVENT_PKT = 0x04"

definition HCI_VHCI_PKT :: byte where
  "HCI_VHCI_PKT = 0xff"

subsection \<open>The outside world\<close>

datatype endpoint = Vhci | Stpbt

datatype errno = EAGAIN | EINTR | EIO

text \<open>
  \<open>Unknown_packet_type\<close> is the line that \<open>get_packet_len\<close> prints on stderr,
  \<open>Perror\<close> a call of \<open>perror\<close> with its prefix, \<open>Stderr\<close> a fixed line
  printed on stderr, \<open>Print_hex\<close> one line of
  \<open>print_hex\<close> (prefix, the length printed, the bytes dumped), \<open>Write\<close> a call of
  \<open>write\<close> on an endpoint with the bytes handed to it, \<open>Close\<close> a call of \<open>close\<close>.
\<close>

datatype effect =
    Unknown_packet_type byte
  | Perror string
  | Stderr string
  | Print_hex string int "byte list"
  | Write endpoint "byte list"
  | Close endpoint

text \<open>
  What a call of \<open>read\<close> meets: a device holding some bytes (an empty list is end of
  file), or a failure with its errno.
\<close>

datatype read_res = Read_bytes "byte list" | Read_fail errno

text \<open>
  What \<open>select\<close> returns: a failure with its errno (\<open>n < 0\<close>), a timeout
  (\<open>n = 0\<close>), or the readiness of the two descriptors (vhci first, stpbt second).
\<close>

datatype select_res = Select_fail errno | Select_timeout | Select_ready bool bool

subsection \<open>get\_packet\_len\<close>

text \<open>
  The C function returns the length and stores the flag through a pointer; the model
  returns the length, the flag, and what was printed on stderr. A byte is promoted to
  \<open>int\<close> before the arithmetic, so nothing wraps: the largest value is 5 + 65535.
\<close>

definition get_packet_len :: "byte list \<Rightarrow> int \<Rightarrow> int \<times> bool \<times> effect list" where
  "get_packet_len buf len =
     (if len < 1 then (0, False, [])
      else if buf ! 0 = HCI_COMMAND_PKT then
        (if len < 4 then (0, False, []) else (4 + uint (buf ! 3), False, []))
      else if buf ! 0 = HCI_ACLDATA_PKT then
        (if len < 5 then (0, False, [])
         else (5 + (uint (buf ! 3) OR push_bit 8 (uint (buf ! 4))), False, []))
      else if buf ! 0 = HCI_SCODATA_PKT then
        (if len < 4 then (0, False, []) else (4 + uint (buf ! 3), False, []))
      else if buf ! 0 = HCI_EVENT_PKT then
        (if len < 3 then (0, False, []) else (3 + uint (buf ! 2), False, []))
      else if buf ! 0 = HCI_VHCI_PKT then
        (if len < 2 then (0, True, []) else (len, True, []))
      else (- 1, False, [Unknown_packet_type (buf ! 0)]))"

subsection \<open>print\_hex, memmove, read\<close>

definition print_hex :: "string \<Rightarrow> byte list \<Rightarrow> int \<Rightarrow> effect list" where
  "print_hex prefix buf len = [Print_hex prefix len (take (nat (min len 32)) buf)]"

text \<open>\<open>memmove (buf, buf + off, n)\<close>: the \<open>n\<close> bytes from offset \<open>off\<close> land at the front.\<close>

definition memmove_front :: "byte list \<Rightarrow> nat \<Rightarrow> nat \<Rightarrow> byte list" where
  "memmove_front buf off n = take n (drop off buf) @ drop n buf"

text \<open>
  \<open>read (fd, buf + off, cnt)\<close>: at most \<open>cnt\<close> of the bytes the device holds are
  stored from offset \<open>off\<close> on, and their number is returned; a failure returns -1 and
  leaves the array alone.
\<close>

definition read_at :: "read_res \<Rightarrow> byte list \<Rightarrow> int \<Rightarrow> int \<Rightarrow> int \<times> byte list" where
  "read_at rr buf off cnt =
     (case rr of
        Read_fail e \<Rightarrow> (- 1, buf)
      | Read_bytes d \<Rightarrow>
          (let got = take (nat cnt) d
           in (int (length got),
               take (nat off) buf @ got @ drop (nat off + length got) buf)))"

definition read_errno :: "read_res \<Rightarrow> errno option" where
  "read_errno rr = (case rr of Read_fail e \<Rightarrow> Some e | Read_bytes d \<Rightarrow> None)"

subsection \<open>The two packet loops of main\<close>

text \<open>
  What a packet loop leaves behind: the array, the pending length, the packets it took
  out of the array in order (each with the flag \<open>is_vhci_internal\<close> it was given and its
  bytes \<open>buf[0 .. pkt_len)\<close>), and its effects.
\<close>

record feed_out =
  out_buf :: "byte list"
  out_len :: int
  out_pkts :: "(bool \<times> byte list) list"
  out_eff :: "effect list"

text \<open>
  One turn of the loop body \<open>while (vhci_len > 0) { ... }\<close>: \<open>None\<close> is a
  \<open>break\<close>; otherwise the new array, the new length and the packet taken out.
  \<open>wret\<close> is what \<open>write\<close> returns if this turn calls it.
\<close>

definition vhci_turn ::
  "bool \<Rightarrow> int \<Rightarrow> byte list \<Rightarrow> int \<Rightarrow> effect list \<times> (byte list \<times> int \<times> bool \<times> byte list) option"
where
  "vhci_turn verbose wret buf len =
     (case get_packet_len buf len of (pkt_len, is_vhci_internal, log) \<Rightarrow>
        if pkt_len \<le> 0 then (log, None)
        else if pkt_len > len then (log, None)
        else
          (log @
           (if is_vhci_internal then
              (if verbose then print_hex ''VHCI internal (ignored)'' buf pkt_len else [])
            else
              (if verbose then print_hex ''TX->chip'' buf pkt_len else []) @
              [Write Stpbt (take (nat pkt_len) buf)] @
              (if wret \<noteq> pkt_len then [Perror ''write to stpbt''] else [])),
           Some ((if pkt_len < len
                  then memmove_front buf (nat pkt_len) (nat (len - pkt_len)) else buf),
                 len - pkt_len,
                 is_vhci_internal, take (nat pkt_len) buf)))"

definition stpbt_turn ::
  "bool \<Rightarrow> int \<Rightarrow> byte list \<Rightarrow> int \<Rightarrow> effect list \<times> (byte list \<times> int \<times> bool \<times> byte list) option"
where
  "stpbt_turn verbose wret buf len =
     (case get_packet_len buf len of (pkt_len, is_vhci_internal, log) \<Rightarrow>
        if pkt_len \<le> 0 then (log, None)
        else if pkt_len > len then (log, None)
        else
          (log @
           (if verbose then print_hex ''RX<-chip'' buf pkt_len else []) @
           [Write Vhci (take (nat pkt_len) buf)] @
           (if wret \<noteq> pkt_len then [Perror ''write to vhci''] else []),
           Some ((if pkt_len < len
                  then memmove_front buf (nat pkt_len) (nat (len - pkt_len)) else buf),
                 len - pkt_len,
                 is_vhci_internal, take (nat pkt_len) buf)))"

lemma vhci_turn_decreases:
  "vhci_turn verbose wret buf len = (eff, Some (buf', len', pk)) \<Longrightarrow> len' < len"
  by (auto simp: vhci_turn_def split: prod.splits if_splits)

lemma stpbt_turn_decreases:
  "stpbt_turn verbose wret buf len = (eff, Some (buf', len', pk)) \<Longrightarrow> len' < len"
  by (auto simp: stpbt_turn_def split: prod.splits if_splits)

text \<open>
  The loops. \<open>wr\<close> lists what the successive calls of \<open>write\<close> in this loop return
  (\<open>wr 0\<close> the first); a turn that writes uses up one entry.
\<close>

function vhci_loop :: "bool \<Rightarrow> (nat \<Rightarrow> int) \<Rightarrow> byte list \<Rightarrow> int \<Rightarrow> feed_out" where
  "vhci_loop verbose wr buf len =
     (if len > 0 then
        (case vhci_turn verbose (wr 0) buf len of
           (eff, None) \<Rightarrow>
             \<lparr>out_buf = buf, out_len = len, out_pkts = [], out_eff = eff\<rparr>
         | (eff, Some (buf', len', pk)) \<Rightarrow>
             (let r = vhci_loop verbose (if fst pk then wr else (\<lambda>k. wr (Suc k))) buf' len'
              in r\<lparr>out_pkts := pk # out_pkts r, out_eff := eff @ out_eff r\<rparr>))
      else \<lparr>out_buf = buf, out_len = len, out_pkts = [], out_eff = []\<rparr>)"
  by pat_completeness auto
termination
  by (relation "measure (\<lambda>(verbose, wr, buf, len). nat len)")
     (auto dest: vhci_turn_decreases [OF sym])

function stpbt_loop :: "bool \<Rightarrow> (nat \<Rightarrow> int) \<Rightarrow> byte list \<Rightarrow> int \<Rightarrow> feed_out" where
  "stpbt_loop verbose wr buf len =
     (if len > 0 then
        (case stpbt_turn verbose (wr 0) buf len of
           (eff, None) \<Rightarrow>
             \<lparr>out_buf = buf, out_len = len, out_pkts = [], out_eff = eff\<rparr>
         | (eff, Some (buf', len', pk)) \<Rightarrow>
             (let r = stpbt_loop verbose (\<lambda>k. wr (Suc k)) buf' len'
              in r\<lparr>out_pkts := pk # out_pkts r, out_eff := eff @ out_eff r\<rparr>))
      else \<lparr>out_buf = buf, out_len = len, out_pkts = [], out_eff = []\<rparr>)"
  by pat_completeness auto
termination
  by (relation "measure (\<lambda>(verbose, wr, buf, len). nat len)")
     (auto dest: stpbt_turn_decreases [OF sym])

declare vhci_loop.simps [simp del]
declare stpbt_loop.simps [simp del]

subsection \<open>One readable descriptor\<close>

text \<open>
  The block \<open>if (FD_ISSET (vhci_fd, &rfds)) { ... }\<close>: one read into the free space
  \<open>BUF_SIZE - vhci_len\<close> behind the pending bytes, then the packet loop if bytes came;
  a failure other than \<open>EAGAIN\<close> is only reported. The block of stpbt is the same
  with its own loop and message.
\<close>

definition vhci_readable ::
  "bool \<Rightarrow> read_res \<Rightarrow> (nat \<Rightarrow> int) \<Rightarrow> byte list \<Rightarrow> int \<Rightarrow> feed_out"
where
  "vhci_readable verbose rr wr buf len =
     (case read_at rr buf len (BUF_SIZE - len) of (n, buf') \<Rightarrow>
        if n > 0 then vhci_loop verbose wr buf' (len + n)
        else if n < 0 \<and> read_errno rr \<noteq> Some EAGAIN then
          \<lparr>out_buf = buf', out_len = len, out_pkts = [],
           out_eff = [Perror ''read from vhci'']\<rparr>
        else \<lparr>out_buf = buf', out_len = len, out_pkts = [], out_eff = []\<rparr>)"

definition stpbt_readable ::
  "bool \<Rightarrow> read_res \<Rightarrow> (nat \<Rightarrow> int) \<Rightarrow> byte list \<Rightarrow> int \<Rightarrow> feed_out"
where
  "stpbt_readable verbose rr wr buf len =
     (case read_at rr buf len (BUF_SIZE - len) of (n, buf') \<Rightarrow>
        if n > 0 then stpbt_loop verbose wr buf' (len + n)
        else if n < 0 \<and> read_errno rr \<noteq> Some EAGAIN then
          \<lparr>out_buf = buf', out_len = len, out_pkts = [],
           out_eff = [Perror ''read from stpbt'']\<rparr>
        else \<lparr>out_buf = buf', out_len = len, out_pkts = [], out_eff = []\<rparr>)"

text \<open>
  Successive reads of one descriptor, each with the bytes the device hands over and the
  results of the writes that follow it: all the packets taken out, in order.
\<close>

fun vhci_feeds ::
  "bool \<Rightarrow> (byte list \<times> (nat \<Rightarrow> int)) list \<Rightarrow> byte list \<Rightarrow> int \<Rightarrow> (bool \<times> byte list) list"
where
  "vhci_feeds verbose [] buf len = []"
| "vhci_feeds verbose (c # cs) buf len =
     (let r = vhci_readable verbose (Read_bytes (fst c)) (snd c) buf len
      in out_pkts r @ vhci_feeds verbose cs (out_buf r) (out_len r))"

fun stpbt_feeds ::
  "bool \<Rightarrow> (byte list \<times> (nat \<Rightarrow> int)) list \<Rightarrow> byte list \<Rightarrow> int \<Rightarrow> (bool \<times> byte list) list"
where
  "stpbt_feeds verbose [] buf len = []"
| "stpbt_feeds verbose (c # cs) buf len =
     (let r = stpbt_readable verbose (Read_bytes (fst c)) (snd c) buf len
      in out_pkts r @ stpbt_feeds verbose cs (out_buf r) (out_len r))"

text \<open>
  A call of \<open>read\<close> never returns more bytes than it asked for, that is, than the
  free space \<open>BUF_SIZE - len\<close>. \<open>vhci_fits\<close> says of a sequence of reads that each
  chunk is one that its read can return: it is no longer than the space that is free
  when it is read.
\<close>

fun vhci_fits ::
  "bool \<Rightarrow> (byte list \<times> (nat \<Rightarrow> int)) list \<Rightarrow> byte list \<Rightarrow> int \<Rightarrow> bool"
where
  "vhci_fits verbose [] buf len = True"
| "vhci_fits verbose (c # cs) buf len =
     (int (length (fst c)) \<le> BUF_SIZE - len \<and>
      (let r = vhci_readable verbose (Read_bytes (fst c)) (snd c) buf len
       in vhci_fits verbose cs (out_buf r) (out_len r)))"

fun stpbt_fits ::
  "bool \<Rightarrow> (byte list \<times> (nat \<Rightarrow> int)) list \<Rightarrow> byte list \<Rightarrow> int \<Rightarrow> bool"
where
  "stpbt_fits verbose [] buf len = True"
| "stpbt_fits verbose (c # cs) buf len =
     (int (length (fst c)) \<le> BUF_SIZE - len \<and>
      (let r = stpbt_readable verbose (Read_bytes (fst c)) (snd c) buf len
       in stpbt_fits verbose cs (out_buf r) (out_len r)))"

subsection \<open>The loop of main\<close>

record bridge_state =
  vhci_buf :: "byte list"
  vhci_len :: int
  stpbt_buf :: "byte list"
  stpbt_len :: int

text \<open>
  What one pass through \<open>while (running) { ... }\<close> meets: the value of \<open>running\<close>
  at the loop test, the outcome of \<open>select\<close>, and for each descriptor what its read
  returns and what the writes of its packets return (packets read from vhci are written
  to stpbt, and the other way round).
\<close>

record pass_env =
  env_running :: bool
  env_select :: select_res
  env_vhci_read :: read_res
  env_stpbt_writes :: "nat \<Rightarrow> int"
  env_stpbt_read :: read_res
  env_vhci_writes :: "nat \<Rightarrow> int"

text \<open>
  The loop over a finite trace of passes. The first component tells whether the loop has
  been left (\<open>running\<close> was 0 at the test, or the \<open>break\<close> after a failed
  \<open>select\<close>); it is \<open>False\<close> when the trace ends with the loop still going.
\<close>

fun bridge_loop :: "bool \<Rightarrow> pass_env list \<Rightarrow> bridge_state \<Rightarrow> bool \<times> bridge_state \<times> effect list" where
  "bridge_loop verbose [] st = (False, st, [])"
| "bridge_loop verbose (e # es) st =
     (if \<not> env_running e then (True, st, [])
      else
        (case env_select e of
           Select_fail err \<Rightarrow>
             if err = EINTR then bridge_loop verbose es st
             else (True, st, [Perror ''select''])
         | Select_timeout \<Rightarrow> bridge_loop verbose es st
         | Select_ready vhci_set stpbt_set \<Rightarrow>
             (let r1 = (if vhci_set
                        then vhci_readable verbose (env_vhci_read e) (env_stpbt_writes e)
                               (vhci_buf st) (vhci_len st)
                        else \<lparr>out_buf = vhci_buf st, out_len = vhci_len st,
                              out_pkts = [], out_eff = []\<rparr>);
                  r2 = (if stpbt_set
                        then stpbt_readable verbose (env_stpbt_read e) (env_vhci_writes e)
                               (stpbt_buf st) (stpbt_len st)
                        else \<lparr>out_buf = stpbt_buf st, out_len = stpbt_len st,
                              out_pkts = [], out_eff = []\<rparr>);
                  rest = bridge_loop verbose es
                           \<lparr>vhci_buf = out_buf r1, vhci_len = out_len r1,
                            stpbt_buf = out_buf r2, stpbt_len = out_len r2\<rparr>
              in (fst rest, fst (snd rest), out_eff r1 @ out_eff r2 @ snd (snd rest)))))"

subsection \<open>main\<close>

text \<open>
  What start-up meets: the descriptors returned by the two calls of \<open>open\<close>, and for
  each descriptor what the two calls of \<open>fcntl\<close> in \<open>set_nonblocking\<close> return.
\<close>

record startup =
  open_vhci :: int
  open_stpbt :: int
  vhci_getfl :: int
  vhci_setfl :: int
  stpbt_getfl :: int
  stpbt_setfl :: int

definition set_nonblocking :: "int \<Rightarrow> int \<Rightarrow> int" where
  "set_nonblocking flags setfl = (if flags < 0 then - 1 else setfl)"

text \<open>The code after the label \<open>cleanup\<close>.\<close>

definition cleanup :: "int \<Rightarrow> int \<Rightarrow> effect list" where
  "cleanup stpbt_fd vhci_fd =
     (if stpbt_fd \<ge> 0 then [Close Stpbt] else []) @
     (if vhci_fd \<ge> 0 then [Close Vhci] else [])"

text \<open>
  \<open>main\<close> returns its exit status, or \<open>None\<close> when the trace of passes ends with the
  loop still going (the process has not exited), and its effects. The two arrays are
  locals that are not initialised: their first contents are arguments.
\<close>

definition main ::
  "string list \<Rightarrow> startup \<Rightarrow> byte list \<Rightarrow> byte list \<Rightarrow> pass_env list \<Rightarrow> int option \<times> effect list"
where
  "main argv s vbuf sbuf envs =
     (let verbose = (length argv > 1 \<and> argv ! 1 = ''-v'');
          vhci_fd = open_vhci s
      in if vhci_fd < 0 then
           (Some 1,
            [Perror ''Failed to open /dev/vhci'',
             Stderr ''Make sure hci_vhci module is loaded''] @ cleanup (- 1) vhci_fd)
         else
           (let stpbt_fd = open_stpbt s
            in if stpbt_fd < 0 then
                 (Some 1,
                  [Perror ''Failed to open /dev/stpbt'',
                   Stderr ''Make sure BT function is enabled via WMT'',
                   Stderr ''And that no other process has the device open''] @
                  cleanup stpbt_fd vhci_fd)
               else if set_nonblocking (vhci_getfl s) (vhci_setfl s) < 0 \<or>
                       set_nonblocking (stpbt_getfl s) (stpbt_setfl s) < 0 then
                 (Some 1,
                  [Perror ''Failed to set non-blocking mode''] @ cleanup stpbt_fd vhci_fd)
               else
                 (case bridge_loop verbose envs
                         \<lparr>vhci_buf = vbuf, vhci_len = 0, stpbt_buf = sbuf, stpbt_len = 0\<rparr>
                  of (left, st, eff) \<Rightarrow>
                    if left then (Some 0, eff @ cleanup stpbt_fd vhci_fd)
                    else (None, eff))))"

subsection \<open>The pending bytes as a byte string\<close>

text \<open>
  The packet loops only look at the pending bytes \<open>buf[0 .. len)\<close>. \<open>split_pkts\<close>
  says on that byte string alone which packets a loop takes out and which bytes stay:
  it asks \<open>get_packet_len\<close> as the loops do.
\<close>

function split_pkts :: "byte list \<Rightarrow> (bool \<times> byte list) list \<times> byte list" where
  "split_pkts xs =
     (case get_packet_len xs (int (length xs)) of (pkt_len, is_vhci_internal, log) \<Rightarrow>
        if pkt_len \<le> 0 \<or> pkt_len > int (length xs) then ([], xs)
        else
          (let rest = split_pkts (drop (nat pkt_len) xs)
           in ((is_vhci_internal, take (nat pkt_len) xs) # fst rest, snd rest)))"
  by pat_completeness auto
termination
  by (relation "measure length") auto

declare split_pkts.simps [simp del]

text \<open>
  A complete packet: a non-empty byte string whose length is the one
  \<open>get_packet_len\<close> computes for it.
\<close>

definition complete_pkt :: "byte list \<Rightarrow> bool" where
  "complete_pkt f = (f \<noteq> [] \<and> fst (get_packet_len f (int (length f))) = int (length f))"

subsection \<open>Reading the effects\<close>

text \<open>The calls of \<open>write\<close> among the effects, in order: the endpoint and the bytes.\<close>

fun writes :: "effect list \<Rightarrow> (endpoint \<times> byte list) list" where
  "writes [] = []"
| "writes (Write ep bs # es) = (ep, bs) # writes es"
| "writes (e # es) = writes es"

text \<open>The bytes that the read of one block stores in the array.\<close>

definition taken :: "read_res \<Rightarrow> int \<Rightarrow> byte list" where
  "taken rr len =
     (case rr of Read_bytes d \<Rightarrow> take (nat (BUF_SIZE - len)) d | Read_fail e \<Rightarrow> [])"

text \<open>The invariant of an accumulator: the array has its size and the pending length fits.\<close>

definition acc_ok :: "byte list \<Rightarrow> int \<Rightarrow> bool" where
  "acc_ok buf len = (0 \<le> len \<and> len \<le> BUF_SIZE \<and> length buf = nat BUF_SIZE)"

subsection \<open>Leaving the loop of main\<close>

text \<open>
  The two ways out of \<open>while (running) { ... }\<close> in one pass: \<open>running\<close> is 0 at
  the loop test, or \<open>select\<close> fails with an errno other than \<open>EINTR\<close> and the
  \<open>break\<close> is taken.
\<close>

definition leaves_loop :: "pass_env \<Rightarrow> bool" where
  "leaves_loop e =
     (\<not> env_running e \<or>
      (case env_select e of Select_fail err \<Rightarrow> err \<noteq> EINTR | _ \<Rightarrow> False))"

section \<open>Properties\<close>

lemmas tag_defs = HCI_COMMAND_PKT_def HCI_ACLDATA_PKT_def HCI_SCODATA_PKT_def
  HCI_EVENT_PKT_def HCI_VHCI_PKT_def

subsection \<open>The length computed from the header\<close>

text \<open>
  The two length bytes of an ACL header are combined with a shift and a bitwise or; as
  the low byte is below 256 this is the little-endian 16-bit number.
\<close>

lemma or_shift8: "uint (a::byte) OR push_bit 8 (uint (b::byte)) = uint a + 256 * uint b"
proof -
  have "uint a AND push_bit 8 (uint b) = 0"
    by (rule bit_eqI) (auto simp: bit_simps dest: bit_imp_le_length)
  then have "uint a + push_bit 8 (uint b) = uint a OR push_bit 8 (uint b)"
    by (rule disjunctive_add_eq_or)
  then show ?thesis by (simp add: push_bit_eq_mult)
qed

text \<open>
  C2. Once the bytes of the header are there, \<open>get_packet_len\<close> returns, for a command
  (tag 0x01), 4 plus the byte at index 3; for ACL data (tag 0x02), 5 plus the
  little-endian 16-bit number at indices 3 and 4; for SCO data (tag 0x03), 4 plus the
  byte at index 3; for an event (tag 0x04), 3 plus the byte at index 2.
\<close>

theorem get_packet_len_type_length:
  "(buf ! 0 = 0x01 \<and> 4 \<le> len \<longrightarrow> fst (get_packet_len buf len) = 4 + uint (buf ! 3)) \<and>
   (buf ! 0 = 0x02 \<and> 5 \<le> len \<longrightarrow>
      fst (get_packet_len buf len) = 5 + (uint (buf ! 3) + 256 * uint (buf ! 4))) \<and>
   (buf ! 0 = 0x03 \<and> 4 \<le> len \<longrightarrow> fst (get_packet_len buf len) = 4 + uint (buf ! 3)) \<and>
   (buf ! 0 = 0x04 \<and> 3 \<le> len \<longrightarrow> fst (get_packet_len buf len) = 3 + uint (buf ! 2))"
  by (simp add: get_packet_len_def or_shift8 tag_defs)

theorem get_packet_len_type_length_witness:
  "fst (get_packet_len [0x01, 0x0c, 0x20, 0x02, 0xaa, 0xbb] 6) = 6 \<and>
   fst (get_packet_len [0x02, 0x01, 0x00, 0x34, 0x12] 5) = 5 + 0x1234 \<and>
   fst (get_packet_len [0x03, 0x01, 0x00, 0x07] 4) = 11 \<and>
   fst (get_packet_len [0x04, 0x0e, 0x04, 0x01, 0x0c, 0x20, 0x00] 3) = 7"
  using get_packet_len_type_length [of "[0x01, 0x0c, 0x20, 0x02, 0xaa, 0xbb]" 6]
    get_packet_len_type_length [of "[0x02, 0x01, 0x00, 0x34, 0x12]" 5]
    get_packet_len_type_length [of "[0x03, 0x01, 0x00, 0x07]" 4]
    get_packet_len_type_length [of "[0x04, 0x0e, 0x04, 0x01, 0x0c, 0x20, 0x00]" 3]
  by simp

subsection \<open>A lone vendor tag\<close>

text \<open>
  C10. For a buffer holding only the tag byte 0xff, \<open>get_packet_len\<close> returns 0 (more
  bytes needed), and both packet loops leave the byte pending and take nothing out.
  From two buffered bytes on, a buffer starting with 0xff is one packet of all the
  buffered bytes: with the tag and one more byte pending, the loop takes out that
  two-byte packet.
\<close>

theorem vendor_lone_tag_retained:
  "get_packet_len (HCI_VHCI_PKT # rest) 1 = (0, True, []) \<and>
   (buf ! 0 = HCI_VHCI_PKT \<and> 2 \<le> len \<longrightarrow> get_packet_len buf len = (len, True, [])) \<and>
   vhci_loop verbose wr (HCI_VHCI_PKT # rest) 1 =
     \<lparr>out_buf = HCI_VHCI_PKT # rest, out_len = 1, out_pkts = [], out_eff = []\<rparr> \<and>
   stpbt_loop verbose wr (HCI_VHCI_PKT # rest) 1 =
     \<lparr>out_buf = HCI_VHCI_PKT # rest, out_len = 1, out_pkts = [], out_eff = []\<rparr> \<and>
   out_pkts (vhci_loop verbose wr (HCI_VHCI_PKT # opc # rest) 2) =
     [(True, [HCI_VHCI_PKT, opc])]"
proof -
  have g1: "get_packet_len (HCI_VHCI_PKT # rest) 1 = (0, True, [])"
    by (simp add: get_packet_len_def tag_defs)
  have g2: "buf ! 0 = HCI_VHCI_PKT \<and> 2 \<le> len \<longrightarrow> get_packet_len buf len = (len, True, [])"
    by (simp add: get_packet_len_def tag_defs)
  have v1: "vhci_loop verbose wr (HCI_VHCI_PKT # rest) 1 =
     \<lparr>out_buf = HCI_VHCI_PKT # rest, out_len = 1, out_pkts = [], out_eff = []\<rparr>"
    by (simp add: vhci_loop.simps [of _ _ _ 1] vhci_turn_def g1)
  have s1: "stpbt_loop verbose wr (HCI_VHCI_PKT # rest) 1 =
     \<lparr>out_buf = HCI_VHCI_PKT # rest, out_len = 1, out_pkts = [], out_eff = []\<rparr>"
    by (simp add: stpbt_loop.simps [of _ _ _ 1] stpbt_turn_def g1)
  have g3: "get_packet_len (HCI_VHCI_PKT # opc # rest) 2 = (2, True, [])"
    by (simp add: get_packet_len_def tag_defs)
  have v2: "out_pkts (vhci_loop verbose wr (HCI_VHCI_PKT # opc # rest) 2) =
     [(True, [HCI_VHCI_PKT, opc])]"
    by (simp add: vhci_loop.simps [of _ _ _ 2] vhci_loop.simps [of _ _ _ 0] vhci_turn_def g3)
  from g1 g2 v1 s1 v2 show ?thesis by blast
qed

theorem vendor_lone_tag_retained_witness:
  "get_packet_len [0xff, 0x01, 0x00] 2 = (2, True, [])"
  using vendor_lone_tag_retained [of "[]" "[0xff, 0x01, 0x00]" 2 False "\<lambda>k. 0" 0]
  by (simp add: HCI_VHCI_PKT_def)

subsection \<open>The loops on the pending bytes\<close>

lemma gpl_take: "get_packet_len (take (nat len) buf) len = get_packet_len buf len"
  by (auto simp: get_packet_len_def)

lemma gpl_pending:
  assumes "0 \<le> len" "nat len \<le> length buf"
  shows "get_packet_len (take (nat len) buf) (int (length (take (nat len) buf))) =
         get_packet_len buf len"
  using assms by (simp add: gpl_take min_absorb2)

lemma memmove_front_take:
  assumes "off + n \<le> length buf"
  shows "take n (memmove_front buf off n) = take n (drop off buf)"
    and "length (memmove_front buf off n) = length buf"
  using assms by (simp_all add: memmove_front_def)

lemma turn_same: "snd (stpbt_turn v w buf len) = snd (vhci_turn v' w' buf len)"
  by (simp add: stpbt_turn_def vhci_turn_def split: prod.splits)

lemma split_pkts_stop:
  "get_packet_len xs (int (length xs)) = (pl, iv, lg) \<Longrightarrow> pl \<le> 0 \<or> pl > int (length xs) \<Longrightarrow>
   split_pkts xs = ([], xs)"
  by (subst split_pkts.simps) auto

lemma split_pkts_step:
  "get_packet_len xs (int (length xs)) = (pl, iv, lg) \<Longrightarrow> 0 < pl \<Longrightarrow> pl \<le> int (length xs) \<Longrightarrow>
   split_pkts xs = ((iv, take (nat pl) xs) # fst (split_pkts (drop (nat pl) xs)),
                    snd (split_pkts (drop (nat pl) xs)))"
  by (subst split_pkts.simps) (simp add: Let_def)

lemma vhci_turn_None:
  assumes "0 \<le> len" "nat len \<le> length buf" "snd (vhci_turn v w buf len) = None"
  shows "split_pkts (take (nat len) buf) = ([], take (nat len) buf)"
proof -
  obtain pl iv lg where g: "get_packet_len buf len = (pl, iv, lg)"
    by (cases "get_packet_len buf len") auto
  with assms(3) have "pl \<le> 0 \<or> pl > len"
    by (auto simp: vhci_turn_def split: if_splits)
  moreover have "int (length (take (nat len) buf)) = len"
    using assms(1,2) by simp
  moreover have "get_packet_len (take (nat len) buf) (int (length (take (nat len) buf))) = (pl, iv, lg)"
    using gpl_pending [OF assms(1,2)] g by simp
  ultimately show ?thesis
    by (intro split_pkts_stop) auto
qed

lemma vhci_turn_Some:
  assumes "0 \<le> len" "nat len \<le> length buf"
    and "snd (vhci_turn v w buf len) = Some (buf', len', pk)"
  shows "split_pkts (take (nat len) buf) =
           (pk # fst (split_pkts (take (nat len') buf')), snd (split_pkts (take (nat len') buf')))"
    and "0 \<le> len'" and "len' < len" and "length buf' = length buf"
    and "snd pk = take (nat (len - len')) buf"
    and "take (nat len') buf' = take (nat len') (drop (nat (len - len')) buf)"
    and "fst (get_packet_len buf len) = len - len'"
    and "fst pk = fst (snd (get_packet_len buf len))"
proof -
  obtain pl iv lg where g: "get_packet_len buf len = (pl, iv, lg)"
    by (cases "get_packet_len buf len") auto
  with assms(3) have r: "0 < pl" "pl \<le> len" "len' = len - pl" "pk = (iv, take (nat pl) buf)"
    "buf' = (if pl < len then memmove_front buf (nat pl) (nat (len - pl)) else buf)"
    by (auto simp: vhci_turn_def split: if_splits)
  from r assms(1,2) have fit: "nat pl + nat (len - pl) \<le> length buf" by linarith
  show "0 \<le> len'" "len' < len" using r by simp_all
  show "length buf' = length buf" using r fit by (simp add: memmove_front_take)
  show "snd pk = take (nat (len - len')) buf" using r by simp
  show "fst (get_packet_len buf len) = len - len'" using r g by simp
  show "fst pk = fst (snd (get_packet_len buf len))" using r g by simp
  have t: "take (nat len') buf' = drop (nat pl) (take (nat len) buf)"
  proof (cases "pl < len")
    case True
    with r fit show ?thesis
      by (simp add: memmove_front_take drop_take nat_diff_distrib)
  next
    case False
    with r show ?thesis by simp
  qed
  from t r show "take (nat len') buf' = take (nat len') (drop (nat (len - len')) buf)"
    by (simp add: drop_take nat_diff_distrib)
  have p: "take (nat pl) (take (nat len) buf) = take (nat pl) buf"
    using r by (simp add: min_absorb1)
  have l: "int (length (take (nat len) buf)) = len"
    using assms(1,2) by simp
  have gp: "get_packet_len (take (nat len) buf) (int (length (take (nat len) buf))) = (pl, iv, lg)"
    using gpl_pending [OF assms(1,2)] g by simp
  have "split_pkts (take (nat len) buf) =
          ((iv, take (nat pl) (take (nat len) buf)) #
             fst (split_pkts (drop (nat pl) (take (nat len) buf))),
           snd (split_pkts (drop (nat pl) (take (nat len) buf))))"
    using r(1,2) l by (intro split_pkts_step [OF gp]) auto
  then show "split_pkts (take (nat len) buf) =
           (pk # fst (split_pkts (take (nat len') buf')), snd (split_pkts (take (nat len') buf')))"
    by (simp only: t p r(4))
qed

lemma split_pkts_Nil: "split_pkts [] = ([], [])"
  by (subst split_pkts.simps) (simp add: get_packet_len_def)

lemma vhci_loop_split:
  "0 \<le> len \<Longrightarrow> nat len \<le> length buf \<Longrightarrow>
   out_pkts (vhci_loop v wr buf len) = fst (split_pkts (take (nat len) buf)) \<and>
   take (nat (out_len (vhci_loop v wr buf len))) (out_buf (vhci_loop v wr buf len)) =
     snd (split_pkts (take (nat len) buf)) \<and>
   0 \<le> out_len (vhci_loop v wr buf len) \<and> out_len (vhci_loop v wr buf len) \<le> len \<and>
   length (out_buf (vhci_loop v wr buf len)) = length buf"
proof (induction v wr buf len rule: vhci_loop.induct)
  case (1 verbose wr buf len)
  show ?case
  proof (cases "0 < len")
    case False
    with "1.prems" have "len = 0" by simp
    then show ?thesis by (simp add: vhci_loop.simps [of _ _ _ 0] split_pkts_Nil)
  next
    case True
    obtain eff y where t: "vhci_turn verbose (wr 0) buf len = (eff, y)"
      by (cases "vhci_turn verbose (wr 0) buf len") auto
    show ?thesis
    proof (cases y)
      case None
      with t have "snd (vhci_turn verbose (wr 0) buf len) = None" by simp
      from vhci_turn_None [OF "1.prems" this] True t None show ?thesis
        by (simp add: vhci_loop.simps [of _ _ buf len])
    next
      case (Some x2)
      obtain buf' len' pk where x2: "x2 = (buf', len', pk)" by (cases x2) auto
      with t Some have s: "snd (vhci_turn verbose (wr 0) buf len) = Some (buf', len', pk)"
        by simp
      note f = vhci_turn_Some [OF "1.prems" s]
      define wr' where "wr' = (if fst pk then wr else (\<lambda>k. wr (Suc k)))"
      have fit: "nat len' \<le> length buf'" using f(2,3,4) "1.prems" by linarith
      have IH: "out_pkts (vhci_loop verbose wr' buf' len') = fst (split_pkts (take (nat len') buf')) \<and>
        take (nat (out_len (vhci_loop verbose wr' buf' len'))) (out_buf (vhci_loop verbose wr' buf' len')) =
          snd (split_pkts (take (nat len') buf')) \<and>
        0 \<le> out_len (vhci_loop verbose wr' buf' len') \<and> out_len (vhci_loop verbose wr' buf' len') \<le> len' \<and>
        length (out_buf (vhci_loop verbose wr' buf' len')) = length buf'"
        unfolding wr'_def
        by (rule "1.IH" [OF True t [symmetric] Some _ _ f(2) fit, of "(len', pk)"])
           (simp_all add: x2)
      have u: "vhci_loop verbose wr buf len =
        (vhci_loop verbose wr' buf' len')\<lparr>out_pkts := pk # out_pkts (vhci_loop verbose wr' buf' len'),
          out_eff := eff @ out_eff (vhci_loop verbose wr' buf' len')\<rparr>"
        using True t Some x2 by (simp add: vhci_loop.simps [of _ _ buf len] wr'_def Let_def)
      from IH f show ?thesis by (simp add: u)
    qed
  qed
qed

lemma loops_same:
  "\<forall>v' wr'. out_pkts (stpbt_loop v wr buf len) = out_pkts (vhci_loop v' wr' buf len) \<and>
   out_buf (stpbt_loop v wr buf len) = out_buf (vhci_loop v' wr' buf len) \<and>
   out_len (stpbt_loop v wr buf len) = out_len (vhci_loop v' wr' buf len)"
proof (induction v wr buf len rule: stpbt_loop.induct)
  case (1 verbose wr buf len)
  show ?case
  proof (intro allI)
    fix v' wr'
    show "out_pkts (stpbt_loop verbose wr buf len) = out_pkts (vhci_loop v' wr' buf len) \<and>
      out_buf (stpbt_loop verbose wr buf len) = out_buf (vhci_loop v' wr' buf len) \<and>
      out_len (stpbt_loop verbose wr buf len) = out_len (vhci_loop v' wr' buf len)"
    proof (cases "0 < len")
      case False
      then show ?thesis
        by (simp add: stpbt_loop.simps [of _ _ buf len] vhci_loop.simps [of _ _ buf len])
    next
      case True
      obtain eff y where t: "stpbt_turn verbose (wr 0) buf len = (eff, y)"
        by (cases "stpbt_turn verbose (wr 0) buf len") auto
      obtain eff' y' where t': "vhci_turn v' (wr' 0) buf len = (eff', y')"
        by (cases "vhci_turn v' (wr' 0) buf len") auto
      from turn_same [of verbose "wr 0" buf len v' "wr' 0"] t t' have yy: "y' = y" by simp
      show ?thesis
      proof (cases y)
        case None
        with True t t' yy show ?thesis
          by (simp add: stpbt_loop.simps [of _ _ buf len] vhci_loop.simps [of _ _ buf len])
      next
        case (Some x2)
        obtain buf' len' pk where x2: "x2 = (buf', len', pk)" by (cases x2) auto
        have IH: "\<forall>v' wr'. out_pkts (stpbt_loop verbose (\<lambda>k. wr (Suc k)) buf' len') =
             out_pkts (vhci_loop v' wr' buf' len') \<and>
           out_buf (stpbt_loop verbose (\<lambda>k. wr (Suc k)) buf' len') =
             out_buf (vhci_loop v' wr' buf' len') \<and>
           out_len (stpbt_loop verbose (\<lambda>k. wr (Suc k)) buf' len') =
             out_len (vhci_loop v' wr' buf' len')"
          by (rule "1.IH" [OF True t [symmetric] Some, of buf' "(len', pk)"]) (simp_all add: x2)
        from True t t' yy Some x2 IH show ?thesis
          by (simp add: stpbt_loop.simps [of _ _ buf len] vhci_loop.simps [of _ _ buf len]
              Let_def)
      qed
    qed
  qed
qed

lemma readable_same:
  "out_pkts (stpbt_readable v rr wr buf len) = out_pkts (vhci_readable v' rr wr' buf len) \<and>
   out_buf (stpbt_readable v rr wr buf len) = out_buf (vhci_readable v' rr wr' buf len) \<and>
   out_len (stpbt_readable v rr wr buf len) = out_len (vhci_readable v' rr wr' buf len)"
  using loops_same
  by (simp add: stpbt_readable_def vhci_readable_def split: prod.splits)

lemma stpbt_loop_split:
  "0 \<le> len \<Longrightarrow> nat len \<le> length buf \<Longrightarrow>
   out_pkts (stpbt_loop v wr buf len) = fst (split_pkts (take (nat len) buf)) \<and>
   take (nat (out_len (stpbt_loop v wr buf len))) (out_buf (stpbt_loop v wr buf len)) =
     snd (split_pkts (take (nat len) buf)) \<and>
   0 \<le> out_len (stpbt_loop v wr buf len) \<and> out_len (stpbt_loop v wr buf len) \<le> len \<and>
   length (out_buf (stpbt_loop v wr buf len)) = length buf"
  using vhci_loop_split [of len buf v wr] loops_same [rule_format, of v wr buf len v wr]
  by simp

lemma gpl_internal:
  "get_packet_len xs l = (pl, True, lg) \<Longrightarrow> 0 < pl \<Longrightarrow> xs ! 0 = HCI_VHCI_PKT \<and> 2 \<le> l \<and> pl = l"
  by (auto simp: get_packet_len_def split: if_splits)

lemma gpl_vendor:
  "xs ! 0 = HCI_VHCI_PKT \<Longrightarrow> 2 \<le> l \<Longrightarrow> get_packet_len xs l = (l, True, [])"
  by (simp add: get_packet_len_def tag_defs)

lemma gpl_extend:
  assumes "get_packet_len xs (int (length xs)) = (pl, False, lg)" "0 < pl"
  shows "get_packet_len (xs @ ys) (int (length (xs @ ys))) = (pl, False, lg)"
proof -
  from assms have ne: "xs \<noteq> []" by (auto simp: get_packet_len_def)
  then have h: "(xs @ ys) ! 0 = xs ! 0" by (simp add: nth_append)
  from assms show ?thesis
    unfolding get_packet_len_def h
    by (auto simp: nth_append split: if_splits)
qed

lemma split_pkts_append:
  "\<forall>pk\<in>set (fst (split_pkts (xs @ ys))). \<not> fst pk \<Longrightarrow>
   split_pkts (xs @ ys) =
     (fst (split_pkts xs) @ fst (split_pkts (snd (split_pkts xs) @ ys)),
      snd (split_pkts (snd (split_pkts xs) @ ys)))"
proof (induction xs rule: split_pkts.induct)
  case (1 xs)
  obtain pl iv lg where g: "get_packet_len xs (int (length xs)) = (pl, iv, lg)"
    by (cases "get_packet_len xs (int (length xs))") auto
  show ?case
  proof (cases "pl \<le> 0 \<or> pl > int (length xs)")
    case True
    from split_pkts_stop [OF g True] show ?thesis by simp
  next
    case False
    then have pl: "0 < pl" "pl \<le> int (length xs)" by simp_all
    note sx = split_pkts_step [OF g pl]
    show ?thesis
    proof (cases iv)
      case True
      with g pl have "xs ! 0 = HCI_VHCI_PKT" "2 \<le> int (length xs)"
        using gpl_internal [of xs "int (length xs)" pl lg] by simp_all
      then have "(xs @ ys) ! 0 = HCI_VHCI_PKT" "2 \<le> int (length (xs @ ys))"
        by (auto simp: nth_append)
      from gpl_vendor [OF this]
      have "fst (hd (fst (split_pkts (xs @ ys))))" "fst (split_pkts (xs @ ys)) \<noteq> []"
        using \<open>2 \<le> int (length (xs @ ys))\<close>
        by (simp_all add: split_pkts_step [of "xs @ ys" "int (length (xs @ ys))" True "[]"])
      with "1.prems" show ?thesis by (metis hd_in_set)
    next
      case iv: False
      from gpl_extend [of xs pl lg ys] g iv pl
      have ge: "get_packet_len (xs @ ys) (int (length (xs @ ys))) = (pl, False, lg)" by simp
      have sa: "split_pkts (xs @ ys) =
        ((False, take (nat pl) xs) # fst (split_pkts (drop (nat pl) xs @ ys)),
         snd (split_pkts (drop (nat pl) xs @ ys)))"
        using split_pkts_step [OF ge] pl by simp
      with "1.prems" have nv: "\<forall>pk\<in>set (fst (split_pkts (drop (nat pl) xs @ ys))). \<not> fst pk"
        by simp
      have "split_pkts (drop (nat pl) xs @ ys) =
        (fst (split_pkts (drop (nat pl) xs)) @
           fst (split_pkts (snd (split_pkts (drop (nat pl) xs)) @ ys)),
         snd (split_pkts (snd (split_pkts (drop (nat pl) xs)) @ ys)))"
        using "1.IH" [OF g [symmetric] refl False nv] by simp
      with sa sx iv show ?thesis by simp
    qed
  qed
qed

lemma split_pkts_stuck:
  "split_pkts (snd (split_pkts xs)) = ([], snd (split_pkts xs))"
proof (induction xs rule: split_pkts.induct)
  case (1 xs)
  obtain pl iv lg where g: "get_packet_len xs (int (length xs)) = (pl, iv, lg)"
    by (cases "get_packet_len xs (int (length xs))") auto
  show ?case
  proof (cases "pl \<le> 0 \<or> pl > int (length xs)")
    case True
    from split_pkts_stop [OF g True] show ?thesis by simp
  next
    case False
    then have pl: "0 < pl" "pl \<le> int (length xs)" by simp_all
    from "1.IH" [OF g [symmetric] refl False] split_pkts_step [OF g pl]
    show ?thesis by simp
  qed
qed

lemma split_pkts_bytes:
  "concat (map snd (fst (split_pkts xs))) @ snd (split_pkts xs) = xs"
proof (induction xs rule: split_pkts.induct)
  case (1 xs)
  obtain pl iv lg where g: "get_packet_len xs (int (length xs)) = (pl, iv, lg)"
    by (cases "get_packet_len xs (int (length xs))") auto
  show ?case
  proof (cases "pl \<le> 0 \<or> pl > int (length xs)")
    case True
    from split_pkts_stop [OF g True] show ?thesis by simp
  next
    case False
    then have pl: "0 < pl" "pl \<le> int (length xs)" by simp_all
    from "1.IH" [OF g [symmetric] refl False] split_pkts_step [OF g pl]
    show ?thesis by simp
  qed
qed

lemma complete_pkt_gpl:
  assumes "complete_pkt f" "f ! 0 \<noteq> HCI_VHCI_PKT"
  shows "get_packet_len f (int (length f)) = (int (length f), False, [])"
  using assms unfolding complete_pkt_def get_packet_len_def
  by (auto split: if_splits)

lemma split_pkts_concat:
  "\<forall>f\<in>set fs. complete_pkt f \<and> f ! 0 \<noteq> HCI_VHCI_PKT \<Longrightarrow>
   split_pkts (concat fs @ ys) = (map (Pair False) fs @ fst (split_pkts ys), snd (split_pkts ys))"
proof (induction fs)
  case Nil
  then show ?case by simp
next
  case (Cons f fs)
  then have c: "complete_pkt f" "f ! 0 \<noteq> HCI_VHCI_PKT" by simp_all
  then have ne: "0 < int (length f)" by (simp add: complete_pkt_def)
  from gpl_extend [OF complete_pkt_gpl [OF c] ne, of "concat fs @ ys"]
  have "get_packet_len (f @ concat fs @ ys) (int (length (f @ concat fs @ ys))) =
        (int (length f), False, [])" .
  from split_pkts_step [OF this ne] Cons show ?case by simp
qed

lemmas eval_defs = vhci_readable_def stpbt_readable_def read_at_def read_errno_def BUF_SIZE_def
  vhci_turn_def stpbt_turn_def get_packet_len_def memmove_front_def tag_defs print_hex_def
  vhci_loop.simps stpbt_loop.simps Let_def

lemma read_at_bytes:
  assumes "0 \<le> len" "len \<le> BUF_SIZE" "length buf = nat BUF_SIZE"
  shows "\<exists>buf'. read_at (Read_bytes d) buf len (BUF_SIZE - len) =
           (int (length (take (nat (BUF_SIZE - len)) d)), buf') \<and>
         take (nat (len + int (length (take (nat (BUF_SIZE - len)) d)))) buf' =
           take (nat len) buf @ take (nat (BUF_SIZE - len)) d \<and>
         length buf' = length buf \<and>
         (take (nat (BUF_SIZE - len)) d = [] \<longrightarrow> buf' = buf)"
proof -
  define got where "got = take (nat (BUF_SIZE - len)) d"
  have l: "length got \<le> nat (BUF_SIZE - len)" by (simp add: got_def)
  with assms have fit: "nat len + length got \<le> length buf" by linarith
  have n: "nat (len + int (length got)) = nat len + length got"
    using assms(1) by (simp add: nat_add_distrib)
  have lt: "length (take (nat len) buf) = nat len" using fit by simp
  have "read_at (Read_bytes d) buf len (BUF_SIZE - len) =
        (int (length got), take (nat len) buf @ got @ drop (nat len + length got) buf)"
    by (simp add: read_at_def got_def Let_def)
  moreover have "take (nat (len + int (length got)))
      (take (nat len) buf @ got @ drop (nat len + length got) buf) = take (nat len) buf @ got"
    unfolding n using lt by (simp add: take_append)
  moreover have "length (take (nat len) buf @ got @ drop (nat len + length got) buf) = length buf"
    using fit by simp
  moreover have "got = [] \<longrightarrow> take (nat len) buf @ got @ drop (nat len + length got) buf = buf"
    by simp
  ultimately show ?thesis unfolding got_def by blast
qed

lemma split_pkts_no_pkts: "fst (split_pkts xs) = [] \<Longrightarrow> split_pkts xs = ([], xs)"
  using split_pkts_bytes [of xs] by (cases "split_pkts xs") simp

lemma vhci_readable_split:
  assumes "0 \<le> len" "len \<le> BUF_SIZE" "length buf = nat BUF_SIZE"
    and "fst (split_pkts (take (nat len) buf)) = []"
  shows "out_pkts (vhci_readable v (Read_bytes d) wr buf len) =
           fst (split_pkts (take (nat len) buf @ take (nat (BUF_SIZE - len)) d))"
    and "take (nat (out_len (vhci_readable v (Read_bytes d) wr buf len)))
           (out_buf (vhci_readable v (Read_bytes d) wr buf len)) =
           snd (split_pkts (take (nat len) buf @ take (nat (BUF_SIZE - len)) d))"
    and "0 \<le> out_len (vhci_readable v (Read_bytes d) wr buf len)"
    and "out_len (vhci_readable v (Read_bytes d) wr buf len) \<le>
           len + int (length (take (nat (BUF_SIZE - len)) d))"
    and "length (out_buf (vhci_readable v (Read_bytes d) wr buf len)) = nat BUF_SIZE"
proof -
  define got where "got = take (nat (BUF_SIZE - len)) d"
  from read_at_bytes [OF assms(1-3), of d] obtain buf' where
    r: "read_at (Read_bytes d) buf len (BUF_SIZE - len) = (int (length got), buf')"
    and t: "take (nat (len + int (length got))) buf' = take (nat len) buf @ got"
    and l: "length buf' = length buf" and e: "got = [] \<longrightarrow> buf' = buf"
    unfolding got_def by blast
  have gl: "length got \<le> nat (BUF_SIZE - len)" by (simp add: got_def)
  have all: "out_pkts (vhci_readable v (Read_bytes d) wr buf len) =
           fst (split_pkts (take (nat len) buf @ got)) \<and>
    take (nat (out_len (vhci_readable v (Read_bytes d) wr buf len)))
           (out_buf (vhci_readable v (Read_bytes d) wr buf len)) =
           snd (split_pkts (take (nat len) buf @ got)) \<and>
    0 \<le> out_len (vhci_readable v (Read_bytes d) wr buf len) \<and>
    out_len (vhci_readable v (Read_bytes d) wr buf len) \<le> len + int (length got) \<and>
    length (out_buf (vhci_readable v (Read_bytes d) wr buf len)) = nat BUF_SIZE"
  proof (cases "got = []")
    case True
    with r e have "vhci_readable v (Read_bytes d) wr buf len =
      \<lparr>out_buf = buf, out_len = len, out_pkts = [], out_eff = []\<rparr>"
      by (simp add: vhci_readable_def)
    with True assms split_pkts_no_pkts [OF assms(4)] show ?thesis by simp
  next
    case False
    then have pos: "0 < int (length got)" by simp
    with r have u: "vhci_readable v (Read_bytes d) wr buf len =
      vhci_loop v wr buf' (len + int (length got))"
      by (simp add: vhci_readable_def)
    have "0 \<le> len + int (length got)" using assms(1) by simp
    moreover have "nat (len + int (length got)) \<le> length buf'"
      using gl assms(1-3) l by linarith
    ultimately show ?thesis
      using vhci_loop_split [of "len + int (length got)" buf' v wr] t l assms(3)
      by (simp add: u)
  qed
  from all show "out_pkts (vhci_readable v (Read_bytes d) wr buf len) =
           fst (split_pkts (take (nat len) buf @ take (nat (BUF_SIZE - len)) d))"
    and "take (nat (out_len (vhci_readable v (Read_bytes d) wr buf len)))
           (out_buf (vhci_readable v (Read_bytes d) wr buf len)) =
           snd (split_pkts (take (nat len) buf @ take (nat (BUF_SIZE - len)) d))"
    and "0 \<le> out_len (vhci_readable v (Read_bytes d) wr buf len)"
    and "out_len (vhci_readable v (Read_bytes d) wr buf len) \<le>
           len + int (length (take (nat (BUF_SIZE - len)) d))"
    and "length (out_buf (vhci_readable v (Read_bytes d) wr buf len)) = nat BUF_SIZE"
    unfolding got_def by simp_all
qed

lemma stpbt_readable_split:
  assumes "0 \<le> len" "len \<le> BUF_SIZE" "length buf = nat BUF_SIZE"
    and "fst (split_pkts (take (nat len) buf)) = []"
  shows "out_pkts (stpbt_readable v (Read_bytes d) wr buf len) =
           fst (split_pkts (take (nat len) buf @ take (nat (BUF_SIZE - len)) d))"
    and "take (nat (out_len (stpbt_readable v (Read_bytes d) wr buf len)))
           (out_buf (stpbt_readable v (Read_bytes d) wr buf len)) =
           snd (split_pkts (take (nat len) buf @ take (nat (BUF_SIZE - len)) d))"
    and "0 \<le> out_len (stpbt_readable v (Read_bytes d) wr buf len)"
    and "out_len (stpbt_readable v (Read_bytes d) wr buf len) \<le>
           len + int (length (take (nat (BUF_SIZE - len)) d))"
    and "length (out_buf (stpbt_readable v (Read_bytes d) wr buf len)) = nat BUF_SIZE"
  using vhci_readable_split [OF assms, of v d wr]
    readable_same [of v "Read_bytes d" wr buf len v wr]
  by simp_all

lemma vhci_feeds_split:
  assumes "0 \<le> len" "length buf = nat BUF_SIZE"
    and "fst (split_pkts (take (nat len) buf)) = []"
    and "vhci_fits v cs buf len"
    and "\<forall>pk\<in>set (fst (split_pkts (take (nat len) buf @ concat (map fst cs)))). \<not> fst pk"
  shows "vhci_feeds v cs buf len = fst (split_pkts (take (nat len) buf @ concat (map fst cs)))"
  using assms
proof (induction cs arbitrary: buf len)
  case Nil
  then show ?case by simp
next
  case (Cons c cs)
  define r where "r = vhci_readable v (Read_bytes (fst c)) (snd c) buf len"
  define p where "p = take (nat len) buf"
  define rest where "rest = concat (map fst cs)"
  have hd: "int (length (fst c)) \<le> BUF_SIZE - len"
    and tl: "vhci_fits v cs (out_buf r) (out_len r)"
    using Cons.prems(4) by (simp_all add: r_def Let_def)
  have le: "len \<le> BUF_SIZE" using hd by linarith
  have fitc: "take (nat (BUF_SIZE - len)) (fst c) = fst c"
    using hd by simp
  note f = vhci_readable_split [OF Cons.prems(1) le Cons.prems(2,3), of v "fst c" "snd c",
      folded r_def p_def, unfolded fitc]
  have nv: "\<forall>pk\<in>set (fst (split_pkts ((p @ fst c) @ rest))). \<not> fst pk"
    using Cons.prems(5) by (simp add: p_def rest_def)
  note a = split_pkts_append [OF nv, folded f(1) f(2)]
  have nv': "\<forall>pk\<in>set (fst (split_pkts (take (nat (out_len r)) (out_buf r) @ rest))). \<not> fst pk"
    using nv unfolding a by simp
  have st: "fst (split_pkts (take (nat (out_len r)) (out_buf r))) = []"
    unfolding f(2) by (simp add: split_pkts_stuck)
  have "vhci_feeds v cs (out_buf r) (out_len r) =
        fst (split_pkts (take (nat (out_len r)) (out_buf r) @ rest))"
    unfolding rest_def
    by (rule Cons.IH [OF f(3) f(5) st tl nv' [unfolded rest_def]])
  then have "vhci_feeds v (c # cs) buf len = fst (split_pkts ((p @ fst c) @ rest))"
    unfolding a by (simp add: r_def Let_def)
  then show ?case by (simp add: p_def rest_def)
qed

lemma feeds_same: "stpbt_feeds v cs buf len = vhci_feeds v cs buf len"
proof (induction cs arbitrary: buf len)
  case Nil
  then show ?case by simp
next
  case (Cons c cs)
  from readable_same [of v "Read_bytes (fst c)" "snd c" buf len v "snd c"] Cons.IH
  show ?case by (simp add: Let_def)
qed

lemma fits_same: "stpbt_fits v cs buf len = vhci_fits v cs buf len"
proof (induction cs arbitrary: buf len)
  case Nil
  then show ?case by simp
next
  case (Cons c cs)
  from readable_same [of v "Read_bytes (fst c)" "snd c" buf len v "snd c"] Cons.IH
  show ?case by (simp add: Let_def)
qed

lemma split_pkts_complete:
  assumes "\<forall>f\<in>set fs. complete_pkt f \<and> f ! 0 \<noteq> HCI_VHCI_PKT"
  shows "split_pkts (concat fs) = (map (Pair False) fs, [])"
  using split_pkts_concat [OF assms, of "[]"] by (simp add: split_pkts_Nil)


lemma writes_append: "writes (xs @ ys) = writes xs @ writes ys"
  by (induction xs rule: writes.induct) simp_all

lemma gpl_log_writes: "writes (snd (snd (get_packet_len buf len))) = []"
  by (simp add: get_packet_len_def)

lemma vhci_turn_writes:
  "writes (fst (vhci_turn v w buf len)) =
     (case snd (vhci_turn v w buf len) of None \<Rightarrow> []
      | Some (buf', len', pk) \<Rightarrow> if fst pk then [] else [(Stpbt, snd pk)])"
  using gpl_log_writes [of buf len]
  by (auto simp: vhci_turn_def writes_append print_hex_def split: prod.splits)

lemma stpbt_turn_writes:
  "writes (fst (stpbt_turn v w buf len)) =
     (case snd (stpbt_turn v w buf len) of None \<Rightarrow> []
      | Some (buf', len', pk) \<Rightarrow> [(Vhci, snd pk)])"
  using gpl_log_writes [of buf len]
  by (auto simp: stpbt_turn_def writes_append print_hex_def split: prod.splits)

lemma vhci_loop_writes:
  "writes (out_eff (vhci_loop v wr buf len)) =
     map (\<lambda>pk. (Stpbt, snd pk)) (filter (\<lambda>pk. \<not> fst pk) (out_pkts (vhci_loop v wr buf len)))"
proof (induction v wr buf len rule: vhci_loop.induct)
  case (1 verbose wr buf len)
  show ?case
  proof (cases "0 < len")
    case False
    then show ?thesis by (simp add: vhci_loop.simps [of _ _ buf len])
  next
    case True
    obtain eff y where t: "vhci_turn verbose (wr 0) buf len = (eff, y)"
      by (cases "vhci_turn verbose (wr 0) buf len") auto
    show ?thesis
    proof (cases y)
      case None
      with True t vhci_turn_writes [of verbose "wr 0" buf len] show ?thesis
        by (simp add: vhci_loop.simps [of _ _ buf len])
    next
      case (Some x2)
      obtain buf' len' pk where x2: "x2 = (buf', len', pk)" by (cases x2) auto
      define wr' where "wr' = (if fst pk then wr else (\<lambda>k. wr (Suc k)))"
      have IH: "writes (out_eff (vhci_loop verbose wr' buf' len')) =
        map (\<lambda>pk. (Stpbt, snd pk)) (filter (\<lambda>pk. \<not> fst pk) (out_pkts (vhci_loop verbose wr' buf' len')))"
        unfolding wr'_def
        by (rule "1.IH" [OF True t [symmetric] Some, of buf' "(len', pk)"]) (simp_all add: x2)
      have u: "vhci_loop verbose wr buf len =
        (vhci_loop verbose wr' buf' len')\<lparr>out_pkts := pk # out_pkts (vhci_loop verbose wr' buf' len'),
          out_eff := eff @ out_eff (vhci_loop verbose wr' buf' len')\<rparr>"
        using True t Some x2 by (simp add: vhci_loop.simps [of _ _ buf len] wr'_def Let_def)
      from IH vhci_turn_writes [of verbose "wr 0" buf len] t Some x2 show ?thesis
        by (simp add: u writes_append)
    qed
  qed
qed

lemma stpbt_loop_writes:
  "writes (out_eff (stpbt_loop v wr buf len)) =
     map (\<lambda>pk. (Vhci, snd pk)) (out_pkts (stpbt_loop v wr buf len))"
proof (induction v wr buf len rule: stpbt_loop.induct)
  case (1 verbose wr buf len)
  show ?case
  proof (cases "0 < len")
    case False
    then show ?thesis by (simp add: stpbt_loop.simps [of _ _ buf len])
  next
    case True
    obtain eff y where t: "stpbt_turn verbose (wr 0) buf len = (eff, y)"
      by (cases "stpbt_turn verbose (wr 0) buf len") auto
    show ?thesis
    proof (cases y)
      case None
      with True t stpbt_turn_writes [of verbose "wr 0" buf len] show ?thesis
        by (simp add: stpbt_loop.simps [of _ _ buf len])
    next
      case (Some x2)
      obtain buf' len' pk where x2: "x2 = (buf', len', pk)" by (cases x2) auto
      define wr' where "wr' = (\<lambda>k. wr (Suc k))"
      have IH: "writes (out_eff (stpbt_loop verbose wr' buf' len')) =
        map (\<lambda>pk. (Vhci, snd pk)) (out_pkts (stpbt_loop verbose wr' buf' len'))"
        unfolding wr'_def
        by (rule "1.IH" [OF True t [symmetric] Some, of buf' "(len', pk)"]) (simp_all add: x2)
      have u: "stpbt_loop verbose wr buf len =
        (stpbt_loop verbose wr' buf' len')\<lparr>out_pkts := pk # out_pkts (stpbt_loop verbose wr' buf' len'),
          out_eff := eff @ out_eff (stpbt_loop verbose wr' buf' len')\<rparr>"
        using True t Some x2 by (simp add: stpbt_loop.simps [of _ _ buf len] wr'_def Let_def)
      from IH stpbt_turn_writes [of verbose "wr 0" buf len] t Some x2 show ?thesis
        by (simp add: u writes_append)
    qed
  qed
qed

lemma vhci_readable_writes:
  "writes (out_eff (vhci_readable v rr wr buf len)) =
     map (\<lambda>pk. (Stpbt, snd pk)) (filter (\<lambda>pk. \<not> fst pk) (out_pkts (vhci_readable v rr wr buf len)))"
  by (simp add: vhci_readable_def vhci_loop_writes split: prod.splits)

lemma stpbt_readable_writes:
  "writes (out_eff (stpbt_readable v rr wr buf len)) =
     map (\<lambda>pk. (Vhci, snd pk)) (out_pkts (stpbt_readable v rr wr buf len))"
  by (simp add: stpbt_readable_def stpbt_loop_writes split: prod.splits)

lemma split_pkts_flag:
  "\<forall>pk\<in>set (fst (split_pkts xs)). fst pk = (snd pk ! 0 = HCI_VHCI_PKT)"
proof (induction xs rule: split_pkts.induct)
  case (1 xs)
  obtain pl iv lg where g: "get_packet_len xs (int (length xs)) = (pl, iv, lg)"
    by (cases "get_packet_len xs (int (length xs))") auto
  show ?case
  proof (cases "pl \<le> 0 \<or> pl > int (length xs)")
    case True
    from split_pkts_stop [OF g True] show ?thesis by simp
  next
    case False
    then have pl: "0 < pl" "pl \<le> int (length xs)" by simp_all
    from g pl have "iv = (xs ! 0 = HCI_VHCI_PKT)"
      by (auto simp: get_packet_len_def tag_defs split: if_splits)
    with pl have "iv = (take (nat pl) xs ! 0 = HCI_VHCI_PKT)" by simp
    with "1.IH" [OF g [symmetric] refl False] split_pkts_step [OF g pl]
    show ?thesis by simp
  qed
qed

lemma read_at_n:
  "fst (read_at rr buf len (BUF_SIZE - len)) =
     (case rr of Read_bytes d \<Rightarrow> int (length (taken rr len)) | Read_fail e \<Rightarrow> - 1)"
  by (simp add: read_at_def taken_def Let_def split: read_res.splits)

lemma vhci_readable_inv:
  assumes "0 \<le> len" "len \<le> BUF_SIZE" "length buf = nat BUF_SIZE"
  shows "0 \<le> out_len (vhci_readable v rr wr buf len) \<and>
         out_len (vhci_readable v rr wr buf len) \<le> BUF_SIZE \<and>
         length (out_buf (vhci_readable v rr wr buf len)) = nat BUF_SIZE \<and>
         concat (map snd (out_pkts (vhci_readable v rr wr buf len))) @
           take (nat (out_len (vhci_readable v rr wr buf len)))
             (out_buf (vhci_readable v rr wr buf len)) =
           take (nat len) buf @ taken rr len"
proof (cases rr)
  case (Read_fail e)
  then show ?thesis using assms
    by (simp add: vhci_readable_def read_at_def taken_def)
next
  case (Read_bytes d)
  define got where "got = take (nat (BUF_SIZE - len)) d"
  from read_at_bytes [OF assms, of d] obtain buf' where
    r: "read_at (Read_bytes d) buf len (BUF_SIZE - len) = (int (length got), buf')"
    and t: "take (nat (len + int (length got))) buf' = take (nat len) buf @ got"
    and l: "length buf' = length buf" and e: "got = [] \<longrightarrow> buf' = buf"
    unfolding got_def by blast
  have gl: "length got \<le> nat (BUF_SIZE - len)" by (simp add: got_def)
  have tk: "taken rr len = got" by (simp add: taken_def Read_bytes got_def)
  show ?thesis
  proof (cases "got = []")
    case True
    with r e have "vhci_readable v (Read_bytes d) wr buf len =
      \<lparr>out_buf = buf, out_len = len, out_pkts = [], out_eff = []\<rparr>"
      by (simp add: vhci_readable_def)
    with True assms tk Read_bytes show ?thesis by simp
  next
    case False
    then have pos: "0 < int (length got)" by simp
    with r have u: "vhci_readable v (Read_bytes d) wr buf len =
      vhci_loop v wr buf' (len + int (length got))"
      by (simp add: vhci_readable_def)
    have a: "0 \<le> len + int (length got)" using assms(1) by simp
    have b: "nat (len + int (length got)) \<le> length buf'"
      using gl assms l by linarith
    have c: "len + int (length got) \<le> BUF_SIZE" using gl assms by linarith
    from vhci_loop_split [OF a b, of v wr] split_pkts_bytes [of "take (nat len) buf @ got"] c
    show ?thesis
      by (simp add: Read_bytes u tk [unfolded Read_bytes] t l assms(3))
  qed
qed

lemma taken_fits:
  assumes "0 \<le> len" "len \<le> BUF_SIZE"
  shows "len + int (length (taken rr len)) \<le> BUF_SIZE"
proof (cases rr)
  case (Read_bytes d)
  have "length (take (nat (BUF_SIZE - len)) d) \<le> nat (BUF_SIZE - len)" by simp
  with assms Read_bytes show ?thesis by (simp add: taken_def)
next
  case (Read_fail e)
  with assms show ?thesis by (simp add: taken_def)
qed

lemma vhci_readable_pkts:
  assumes "0 \<le> len" "len \<le> BUF_SIZE" "length buf = nat BUF_SIZE"
  shows "\<forall>pk\<in>set (out_pkts (vhci_readable v rr wr buf len)). fst pk = (snd pk ! 0 = HCI_VHCI_PKT)"
proof (cases rr)
  case (Read_fail e)
  then show ?thesis by (simp add: vhci_readable_def read_at_def)
next
  case (Read_bytes d)
  obtain n buf' where r: "read_at rr buf len (BUF_SIZE - len) = (n, buf')"
    by (cases "read_at rr buf len (BUF_SIZE - len)") auto
  from read_at_bytes [OF assms, of d] r Read_bytes
  have l: "length buf' = length buf" by auto
  from read_at_n [of rr buf len] r Read_bytes have n: "n = int (length (taken rr len))"
    by simp
  with taken_fits [OF assms(1,2), of rr] have nb: "len + n \<le> BUF_SIZE" by simp
  show ?thesis
  proof (cases "0 < n")
    case True
    have a: "0 \<le> len + n" using assms(1) True by simp
    have b: "nat (len + n) \<le> length buf'" using l nb assms by linarith
    from vhci_loop_split [OF a b, of v wr] split_pkts_flag [of "take (nat (len + n)) buf'"] r True
    show ?thesis by (simp add: vhci_readable_def)
  next
    case False
    with r n show ?thesis by (simp add: vhci_readable_def)
  qed
qed

lemma readable_ok:
  assumes "acc_ok buf len"
  shows "acc_ok (out_buf (vhci_readable v rr wr buf len)) (out_len (vhci_readable v rr wr buf len))"
    and "acc_ok (out_buf (stpbt_readable v rr wr buf len)) (out_len (stpbt_readable v rr wr buf len))"
proof -
  from assms have h: "0 \<le> len" "len \<le> BUF_SIZE" "length buf = nat BUF_SIZE"
    by (simp_all add: acc_ok_def)
  from vhci_readable_inv [OF h, of v rr wr]
  show a: "acc_ok (out_buf (vhci_readable v rr wr buf len)) (out_len (vhci_readable v rr wr buf len))"
    by (simp add: acc_ok_def)
  with readable_same [of v rr wr buf len v wr]
  show "acc_ok (out_buf (stpbt_readable v rr wr buf len)) (out_len (stpbt_readable v rr wr buf len))"
    by simp
qed

lemma bridge_loop_ok:
  "acc_ok (vhci_buf st) (vhci_len st) \<Longrightarrow> acc_ok (stpbt_buf st) (stpbt_len st) \<Longrightarrow>
   acc_ok (vhci_buf (fst (snd (bridge_loop v envs st))))
     (vhci_len (fst (snd (bridge_loop v envs st)))) \<and>
   acc_ok (stpbt_buf (fst (snd (bridge_loop v envs st))))
     (stpbt_len (fst (snd (bridge_loop v envs st))))"
proof (induction envs arbitrary: st)
  case Nil
  then show ?case by simp
next
  case (Cons e es)
  show ?case
  proof (cases "env_running e")
    case False
    with Cons.prems show ?thesis by simp
  next
    case True
    show ?thesis
    proof (cases "env_select e")
      case (Select_fail err)
      with True Cons.IH [OF Cons.prems] Cons.prems show ?thesis by simp
    next
      case Select_timeout
      with True Cons.IH [OF Cons.prems] show ?thesis by simp
    next
      case (Select_ready a b)
      define r1 where "r1 = (if a
                        then vhci_readable v (env_vhci_read e) (env_stpbt_writes e)
                               (vhci_buf st) (vhci_len st)
                        else \<lparr>out_buf = vhci_buf st, out_len = vhci_len st,
                              out_pkts = [], out_eff = []\<rparr>)"
      define r2 where "r2 = (if b
                        then stpbt_readable v (env_stpbt_read e) (env_vhci_writes e)
                               (stpbt_buf st) (stpbt_len st)
                        else \<lparr>out_buf = stpbt_buf st, out_len = stpbt_len st,
                              out_pkts = [], out_eff = []\<rparr>)"
      define st' where "st' = \<lparr>vhci_buf = out_buf r1, vhci_len = out_len r1,
                            stpbt_buf = out_buf r2, stpbt_len = out_len r2\<rparr>"
      have "acc_ok (out_buf r1) (out_len r1)" "acc_ok (out_buf r2) (out_len r2)"
        using Cons.prems readable_ok by (simp_all add: r1_def r2_def)
      then have "acc_ok (vhci_buf st') (vhci_len st')" "acc_ok (stpbt_buf st') (stpbt_len st')"
        by (simp_all add: st'_def)
      from Cons.IH [OF this] True Select_ready show ?thesis
        by (simp add: Let_def r1_def r2_def st'_def)
    qed
  qed
qed

subsection \<open>Chunk independence\<close>

text \<open>
  C1, for packets with a length field. Take complete packets of the four kinds with a
  length field (command, ACL data, SCO data, event: the first byte is not 0xff), of any
  number and total length, and cut their concatenation into chunks in any way such that
  each chunk is one its read can return (it fits the space that is free when it is
  read). Reading the chunks one after the other into an empty accumulator takes out, in
  both directions, exactly these packets in their order, none flagged as internal,
  whatever the cut. In particular, when the whole concatenation can be read at once
  (it is at most \<open>BUF_SIZE\<close> bytes long), reading it at once takes out the same
  packets as reading it in chunks.
\<close>

theorem chunk_independence_without_vendor:
  assumes "\<forall>f\<in>set fs. complete_pkt f \<and> f ! 0 \<noteq> HCI_VHCI_PKT"
    and "concat (map fst cs) = concat fs"
    and "length vbuf = nat BUF_SIZE" and "length sbuf = nat BUF_SIZE"
    and "vhci_fits v cs vbuf 0" and "stpbt_fits v cs sbuf 0"
  shows "vhci_feeds v cs vbuf 0 = map (Pair False) fs \<and>
         stpbt_feeds v cs sbuf 0 = map (Pair False) fs \<and>
         (vhci_fits v [(concat fs, wr)] vbuf 0 \<longrightarrow>
            vhci_feeds v cs vbuf 0 = vhci_feeds v [(concat fs, wr)] vbuf 0) \<and>
         (stpbt_fits v [(concat fs, wr)] sbuf 0 \<longrightarrow>
            stpbt_feeds v cs sbuf 0 = stpbt_feeds v [(concat fs, wr)] sbuf 0)"
proof -
  note sp = split_pkts_complete [OF assms(1)]
  have nv: "\<forall>pk\<in>set (fst (split_pkts (concat fs))). \<not> fst pk"
    unfolding sp by auto
  have e: "fst (split_pkts (take (nat 0) b)) = []" for b
    by (simp add: split_pkts_Nil)
  have v1: "vhci_feeds v cs vbuf 0 = map (Pair False) fs"
    using vhci_feeds_split [of 0 vbuf v cs] assms(2,3,5) nv e sp by simp
  have s1: "stpbt_feeds v cs sbuf 0 = map (Pair False) fs"
    using vhci_feeds_split [of 0 sbuf v cs] assms(2,4,6) nv e sp
    by (simp add: feeds_same fits_same)
  have v2: "vhci_feeds v [(concat fs, wr)] vbuf 0 = map (Pair False) fs"
    if "vhci_fits v [(concat fs, wr)] vbuf 0"
    using vhci_feeds_split [of 0 vbuf v "[(concat fs, wr)]"] that assms(3) nv e sp
    by (simp del: vhci_feeds.simps vhci_fits.simps)
  have s2: "stpbt_feeds v [(concat fs, wr)] sbuf 0 = map (Pair False) fs"
    if "stpbt_fits v [(concat fs, wr)] sbuf 0"
    using vhci_feeds_split [of 0 sbuf v "[(concat fs, wr)]"] that assms(4) nv e sp
    by (simp add: feeds_same fits_same
        del: vhci_feeds.simps stpbt_feeds.simps vhci_fits.simps stpbt_fits.simps)
  from v1 s1 v2 s2 show ?thesis by simp
qed

text \<open>
  Two instances: two ACL packets of 2500 bytes each, read one per read (their
  concatenation is longer than the array), and the event 04 0e 04 01 0c 20 00 read as 3
  and 4 bytes, which can also be read at once.
\<close>

theorem chunk_independence_without_vendor_witness:
  "vhci_feeds False
     [([0x02, 0x00, 0x00, 0xbf, 0x09] @ replicate 2495 0, \<lambda>k. 2500),
      ([0x02, 0x00, 0x00, 0xbf, 0x09] @ replicate 2495 0, \<lambda>k. 2500)]
     (replicate 4096 0) 0 =
   map (Pair False)
     [[0x02, 0x00, 0x00, 0xbf, 0x09] @ replicate 2495 0,
      [0x02, 0x00, 0x00, 0xbf, 0x09] @ replicate 2495 0] \<and>
   stpbt_feeds False
     [([0x02, 0x00, 0x00, 0xbf, 0x09] @ replicate 2495 0, \<lambda>k. 2500),
      ([0x02, 0x00, 0x00, 0xbf, 0x09] @ replicate 2495 0, \<lambda>k. 2500)]
     (replicate 4096 0) 0 =
   map (Pair False)
     [[0x02, 0x00, 0x00, 0xbf, 0x09] @ replicate 2495 0,
      [0x02, 0x00, 0x00, 0xbf, 0x09] @ replicate 2495 0] \<and>
   vhci_feeds False [([0x04, 0x0e, 0x04], \<lambda>k. 7), ([0x01, 0x0c, 0x20, 0x00], \<lambda>k. 7)]
     (replicate 4096 0) 0 =
   vhci_feeds False [(concat [[0x04, 0x0e, 0x04, 0x01, 0x0c, 0x20, 0x00]], \<lambda>k. 7)]
     (replicate 4096 0) 0 \<and>
   stpbt_feeds False [([0x04, 0x0e, 0x04], \<lambda>k. 7), ([0x01, 0x0c, 0x20, 0x00], \<lambda>k. 7)]
     (replicate 4096 0) 0 =
   stpbt_feeds False [(concat [[0x04, 0x0e, 0x04, 0x01, 0x0c, 0x20, 0x00]], \<lambda>k. 7)]
     (replicate 4096 0) 0"
proof -
  define A :: "byte list" where "A = [0x02, 0x00, 0x00, 0xbf, 0x09] @ replicate 2495 0"
  define E :: "byte list" where "E = [0x04, 0x0e, 0x04, 0x01, 0x0c, 0x20, 0x00]"
  define w :: "nat \<Rightarrow> int" where "w = (\<lambda>k. 2500)"
  define u :: "nat \<Rightarrow> int" where "u = (\<lambda>k. 7)"
  have d: "length (replicate 4096 (0 :: byte)) = nat BUF_SIZE"
    by (simp add: BUF_SIZE_def)
  have a1: "\<forall>f\<in>set [A, A]. complete_pkt f \<and> f ! 0 \<noteq> HCI_VHCI_PKT"
    by (simp add: A_def complete_pkt_def get_packet_len_def tag_defs)
  have c1: "concat (map fst [(A, w), (A, w)]) = concat [A, A]"
    by simp
  have f1: "vhci_fits False [(A, w), (A, w)] (replicate 4096 0) 0"
    by (simp add: A_def w_def eval_defs)
  have g1: "stpbt_fits False [(A, w), (A, w)] (replicate 4096 0) 0"
    by (simp add: A_def w_def eval_defs)
  note t1 = chunk_independence_without_vendor [OF a1 c1 d d f1 g1, of w]
  have a2: "\<forall>f\<in>set [E]. complete_pkt f \<and> f ! 0 \<noteq> HCI_VHCI_PKT"
    by (simp add: E_def complete_pkt_def get_packet_len_def tag_defs)
  have c2: "concat (map fst [([0x04, 0x0e, 0x04], u), ([0x01, 0x0c, 0x20, 0x00], u)]) =
            concat [E]"
    by (simp add: E_def)
  have f2: "vhci_fits False [([0x04, 0x0e, 0x04], u), ([0x01, 0x0c, 0x20, 0x00], u)]
              (replicate 4096 0) 0"
    by (simp add: u_def eval_defs)
  have g2: "stpbt_fits False [([0x04, 0x0e, 0x04], u), ([0x01, 0x0c, 0x20, 0x00], u)]
              (replicate 4096 0) 0"
    by (simp add: u_def eval_defs)
  have f3: "vhci_fits False [(concat [E], u)] (replicate 4096 0) 0"
    by (simp add: E_def BUF_SIZE_def)
  have g3: "stpbt_fits False [(concat [E], u)] (replicate 4096 0) 0"
    by (simp add: E_def BUF_SIZE_def)
  note t2 = chunk_independence_without_vendor [OF a2 c2 d d f2 g2, of u]
  note r1 = t1 [THEN conjunct1] t1 [THEN conjunct2, THEN conjunct1]
  note r2 = t2 [THEN conjunct2, THEN conjunct2, THEN conjunct1, THEN mp, OF f3]
    t2 [THEN conjunct2, THEN conjunct2, THEN conjunct2, THEN mp, OF g3]
  from r1 r2 show ?thesis
    unfolding A_def E_def w_def u_def by (intro conjI)
qed

text \<open>
  Chunk independence fails for vendor packets. The bytes ff 01 04 0e 00 are a vendor
  packet followed by an event. Read at once, the loop takes out one vendor packet of five
  bytes (the event is swallowed); read as two chunks, it takes out the vendor packet
  and then the event.
\<close>

theorem chunk_independence_counterexample:
  "complete_pkt [0xff, 0x01] \<and> complete_pkt [0x04, 0x0e, 0x00] \<and>
   vhci_feeds False [(concat [[0xff, 0x01], [0x04, 0x0e, 0x00]], \<lambda>k. 3)] (replicate 4096 0) 0 =
     [(True, [0xff, 0x01, 0x04, 0x0e, 0x00])] \<and>
   vhci_feeds False [([0xff, 0x01], \<lambda>k. 3), ([0x04, 0x0e, 0x00], \<lambda>k. 3)] (replicate 4096 0) 0 =
     [(True, [0xff, 0x01]), (False, [0x04, 0x0e, 0x00])]"
  by (simp add: complete_pkt_def eval_defs)

subsection \<open>Which packets are written\<close>

text \<open>
  C3. Whatever a read of vhci brings, the writes to stpbt that follow are exactly the
  packets taken out whose first byte is not 0xff, each with its exact bytes and in
  order: a vendor packet is never written to stpbt. Whatever a read of stpbt brings,
  every packet taken out is written to vhci with its exact bytes, in order. From the
  same bytes both directions take out the same packets, so a byte pattern that is
  dropped on the way to stpbt is written on the way to vhci.
\<close>

theorem forwarding_policy:
  assumes "0 \<le> len" "len \<le> BUF_SIZE" "length buf = nat BUF_SIZE"
  shows "writes (out_eff (vhci_readable v rr wr buf len)) =
           map (\<lambda>pk. (Stpbt, snd pk))
             (filter (\<lambda>pk. snd pk ! 0 \<noteq> HCI_VHCI_PKT) (out_pkts (vhci_readable v rr wr buf len))) \<and>
         writes (out_eff (stpbt_readable v rr wr' buf len)) =
           map (\<lambda>pk. (Vhci, snd pk)) (out_pkts (stpbt_readable v rr wr' buf len)) \<and>
         out_pkts (stpbt_readable v rr wr' buf len) = out_pkts (vhci_readable v rr wr buf len)"
proof -
  have "filter (\<lambda>pk. \<not> fst pk) (out_pkts (vhci_readable v rr wr buf len)) =
        filter (\<lambda>pk. snd pk ! 0 \<noteq> HCI_VHCI_PKT) (out_pkts (vhci_readable v rr wr buf len))"
    using vhci_readable_pkts [OF assms, of v rr wr] by (intro filter_cong) auto
  with vhci_readable_writes [of v rr wr buf len] stpbt_readable_writes [of v rr wr' buf len]
    readable_same [of v rr wr' buf len v wr]
  show ?thesis by simp
qed

theorem forwarding_policy_witness:
  "writes (out_eff (vhci_readable False (Read_bytes [0x04, 0x0e, 0x00, 0xff, 0x01, 0x02])
      (\<lambda>k. 3) (replicate 4096 0) 0)) = [(Stpbt, [0x04, 0x0e, 0x00])] \<and>
   writes (out_eff (stpbt_readable False (Read_bytes [0x04, 0x0e, 0x00, 0xff, 0x01, 0x02])
      (\<lambda>k. 3) (replicate 4096 0) 0)) =
     [(Vhci, [0x04, 0x0e, 0x00]), (Vhci, [0xff, 0x01, 0x02])]"
proof -
  have p: "out_pkts (vhci_readable False (Read_bytes [0x04, 0x0e, 0x00, 0xff, 0x01, 0x02])
      (\<lambda>k. 3) (replicate 4096 0) 0) = [(False, [0x04, 0x0e, 0x00]), (True, [0xff, 0x01, 0x02])]"
    by (simp add: eval_defs)
  have h: "(0::int) \<le> 0" "(0::int) \<le> BUF_SIZE" "length (replicate 4096 (0::byte)) = nat BUF_SIZE"
    by (simp_all add: BUF_SIZE_def)
  from forwarding_policy [OF h, of False "Read_bytes [0x04, 0x0e, 0x00, 0xff, 0x01, 0x02]"
      "\<lambda>k. 3" "\<lambda>k. 3"]
  show ?thesis unfolding p by (simp add: tag_defs)
qed



lemma readable_pkts_split:
  assumes "0 \<le> len" "len \<le> BUF_SIZE" "length buf = nat BUF_SIZE"
  shows "out_pkts (vhci_readable v rr wr buf len) =
           (if taken rr len = [] then []
            else fst (split_pkts (take (nat len) buf @ taken rr len)))"
    and "out_pkts (stpbt_readable v rr wr buf len) =
           (if taken rr len = [] then []
            else fst (split_pkts (take (nat len) buf @ taken rr len)))"
proof -
  have a: "out_pkts (vhci_readable v rr wr buf len) =
           (if taken rr len = [] then []
            else fst (split_pkts (take (nat len) buf @ taken rr len)))"
  proof (cases rr)
    case (Read_fail e)
    then show ?thesis
      by (simp add: vhci_readable_def read_at_def taken_def)
  next
    case (Read_bytes d)
    define got where "got = take (nat (BUF_SIZE - len)) d"
    from read_at_bytes [OF assms, of d] obtain buf' where
      r: "read_at (Read_bytes d) buf len (BUF_SIZE - len) = (int (length got), buf')"
      and t: "take (nat (len + int (length got))) buf' = take (nat len) buf @ got"
      and l: "length buf' = length buf"
      unfolding got_def by blast
    have gl: "length got \<le> nat (BUF_SIZE - len)" by (simp add: got_def)
    have tk: "taken (Read_bytes d) len = got" by (simp add: taken_def got_def)
    show ?thesis
    proof (cases "got = []")
      case True
      with r have "out_pkts (vhci_readable v (Read_bytes d) wr buf len) = []"
        by (simp add: vhci_readable_def)
      with True tk Read_bytes show ?thesis by simp
    next
      case False
      then have pos: "0 < int (length got)" by simp
      with r have u: "vhci_readable v (Read_bytes d) wr buf len =
        vhci_loop v wr buf' (len + int (length got))"
        by (simp add: vhci_readable_def)
      have a: "0 \<le> len + int (length got)" using assms(1) by simp
      have b: "nat (len + int (length got)) \<le> length buf'"
        using gl assms l by linarith
      from vhci_loop_split [OF a b, of v wr] False
      show ?thesis
        by (simp add: Read_bytes u tk t)
    qed
  qed
  then show "out_pkts (vhci_readable v rr wr buf len) =
           (if taken rr len = [] then []
            else fst (split_pkts (take (nat len) buf @ taken rr len)))" .
  from a readable_same [of v rr wr buf len v wr]
  show "out_pkts (stpbt_readable v rr wr buf len) =
           (if taken rr len = [] then []
            else fst (split_pkts (take (nat len) buf @ taken rr len)))"
    by simp
qed

lemma turn_result:
  "snd (vhci_turn v w buf len) =
     (if 0 < fst (get_packet_len buf len) \<and> fst (get_packet_len buf len) \<le> len
      then Some ((if fst (get_packet_len buf len) < len
                  then memmove_front buf (nat (fst (get_packet_len buf len)))
                         (nat (len - fst (get_packet_len buf len)))
                  else buf),
                 len - fst (get_packet_len buf len),
                 fst (snd (get_packet_len buf len)),
                 take (nat (fst (get_packet_len buf len))) buf)
      else None)"
  "snd (stpbt_turn v w buf len) =
     (if 0 < fst (get_packet_len buf len) \<and> fst (get_packet_len buf len) \<le> len
      then Some ((if fst (get_packet_len buf len) < len
                  then memmove_front buf (nat (fst (get_packet_len buf len)))
                         (nat (len - fst (get_packet_len buf len)))
                  else buf),
                 len - fst (get_packet_len buf len),
                 fst (snd (get_packet_len buf len)),
                 take (nat (fst (get_packet_len buf len))) buf)
      else None)"
proof -
  obtain pl iv lg where g: "get_packet_len buf len = (pl, iv, lg)"
    by (cases "get_packet_len buf len") auto
  show "snd (vhci_turn v w buf len) =
     (if 0 < fst (get_packet_len buf len) \<and> fst (get_packet_len buf len) \<le> len
      then Some ((if fst (get_packet_len buf len) < len
                  then memmove_front buf (nat (fst (get_packet_len buf len)))
                         (nat (len - fst (get_packet_len buf len)))
                  else buf),
                 len - fst (get_packet_len buf len),
                 fst (snd (get_packet_len buf len)),
                 take (nat (fst (get_packet_len buf len))) buf)
      else None)"
    by (auto simp: vhci_turn_def g)
  show "snd (stpbt_turn v w buf len) =
     (if 0 < fst (get_packet_len buf len) \<and> fst (get_packet_len buf len) \<le> len
      then Some ((if fst (get_packet_len buf len) < len
                  then memmove_front buf (nat (fst (get_packet_len buf len)))
                         (nat (len - fst (get_packet_len buf len)))
                  else buf),
                 len - fst (get_packet_len buf len),
                 fst (snd (get_packet_len buf len)),
                 take (nat (fst (get_packet_len buf len))) buf)
      else None)"
    by (auto simp: stpbt_turn_def g)
qed

subsection \<open>The accumulator\<close>

text \<open>
  C9. When the pending length is between 0 and \<open>BUF_SIZE\<close> before a descriptor is
  served, it is so afterwards, in both directions, and the array keeps its size; the
  read itself never takes the length beyond \<open>BUF_SIZE\<close>. No byte is lost or
  reordered: the packets taken out, followed by the bytes still pending, are the bytes
  that were pending followed by the bytes read. In both directions the packets taken
  out after a read that brought bytes are those that \<open>split_pkts\<close> finds at the front
  of the pending bytes, and the bytes left pending are the ones it leaves. A turn of a
  packet loop, in either direction, takes a packet out exactly when
  \<open>0 < pkt_len \<le> len\<close>: it then takes the first \<open>pkt_len\<close> pending bytes, leaves
  \<open>len - pkt_len\<close> bytes pending, and these are the bytes that stood behind the
  packet, now at index 0; otherwise it breaks and changes nothing. So the loop of main
  keeps the invariant of both accumulators, which holds at the start, where both
  lengths are 0.
\<close>

theorem accumulator_invariant:
  assumes "0 \<le> len" "len \<le> BUF_SIZE" "length buf = nat BUF_SIZE"
  shows "(0 \<le> out_len (vhci_readable v rr wr buf len) \<and>
          out_len (vhci_readable v rr wr buf len) \<le> BUF_SIZE \<and>
          length (out_buf (vhci_readable v rr wr buf len)) = nat BUF_SIZE \<and>
          concat (map snd (out_pkts (vhci_readable v rr wr buf len))) @
            take (nat (out_len (vhci_readable v rr wr buf len)))
              (out_buf (vhci_readable v rr wr buf len)) =
            take (nat len) buf @ taken rr len) \<and>
         (0 \<le> out_len (stpbt_readable v rr wr buf len) \<and>
          out_len (stpbt_readable v rr wr buf len) \<le> BUF_SIZE \<and>
          length (out_buf (stpbt_readable v rr wr buf len)) = nat BUF_SIZE \<and>
          concat (map snd (out_pkts (stpbt_readable v rr wr buf len))) @
            take (nat (out_len (stpbt_readable v rr wr buf len)))
              (out_buf (stpbt_readable v rr wr buf len)) =
            take (nat len) buf @ taken rr len) \<and>
         len + int (length (taken rr len)) \<le> BUF_SIZE \<and>
         out_pkts (vhci_readable v rr wr buf len) =
           (if taken rr len = [] then []
            else fst (split_pkts (take (nat len) buf @ taken rr len))) \<and>
         out_pkts (stpbt_readable v rr wr buf len) =
           (if taken rr len = [] then []
            else fst (split_pkts (take (nat len) buf @ taken rr len))) \<and>
         (out_pkts (vhci_loop v wr buf len) = fst (split_pkts (take (nat len) buf)) \<and>
          take (nat (out_len (vhci_loop v wr buf len))) (out_buf (vhci_loop v wr buf len)) =
            snd (split_pkts (take (nat len) buf)) \<and>
          out_pkts (stpbt_loop v wr buf len) = fst (split_pkts (take (nat len) buf)) \<and>
          take (nat (out_len (stpbt_loop v wr buf len))) (out_buf (stpbt_loop v wr buf len)) =
            snd (split_pkts (take (nat len) buf))) \<and>
         snd (vhci_turn v w buf len) =
           (if 0 < fst (get_packet_len buf len) \<and> fst (get_packet_len buf len) \<le> len
            then Some ((if fst (get_packet_len buf len) < len
                        then memmove_front buf (nat (fst (get_packet_len buf len)))
                               (nat (len - fst (get_packet_len buf len)))
                        else buf),
                       len - fst (get_packet_len buf len),
                       fst (snd (get_packet_len buf len)),
                       take (nat (fst (get_packet_len buf len))) buf)
            else None) \<and>
         snd (stpbt_turn v w buf len) =
           (if 0 < fst (get_packet_len buf len) \<and> fst (get_packet_len buf len) \<le> len
            then Some ((if fst (get_packet_len buf len) < len
                        then memmove_front buf (nat (fst (get_packet_len buf len)))
                               (nat (len - fst (get_packet_len buf len)))
                        else buf),
                       len - fst (get_packet_len buf len),
                       fst (snd (get_packet_len buf len)),
                       take (nat (fst (get_packet_len buf len))) buf)
            else None) \<and>
         (snd (vhci_turn v w buf len) = Some (buf', len', pk) \<or>
          snd (stpbt_turn v w buf len) = Some (buf', len', pk) \<longrightarrow>
            0 < fst (get_packet_len buf len) \<and> fst (get_packet_len buf len) \<le> len \<and>
            len' = len - fst (get_packet_len buf len) \<and> 0 \<le> len' \<and> len' \<le> BUF_SIZE \<and>
            length buf' = nat BUF_SIZE \<and>
            snd pk = take (nat (fst (get_packet_len buf len))) buf \<and>
            take (nat len') buf' =
              take (nat len') (drop (nat (fst (get_packet_len buf len))) buf)) \<and>
         (acc_ok (vhci_buf st) (vhci_len st) \<and> acc_ok (stpbt_buf st) (stpbt_len st) \<longrightarrow>
            acc_ok (vhci_buf (fst (snd (bridge_loop v envs st))))
              (vhci_len (fst (snd (bridge_loop v envs st)))) \<and>
            acc_ok (stpbt_buf (fst (snd (bridge_loop v envs st))))
              (stpbt_len (fst (snd (bridge_loop v envs st)))))"
proof -
  note a = vhci_readable_inv [OF assms, of v rr wr]
  note s = readable_same [of v rr wr buf len v wr]
  have b: "0 \<le> out_len (stpbt_readable v rr wr buf len) \<and>
          out_len (stpbt_readable v rr wr buf len) \<le> BUF_SIZE \<and>
          length (out_buf (stpbt_readable v rr wr buf len)) = nat BUF_SIZE \<and>
          concat (map snd (out_pkts (stpbt_readable v rr wr buf len))) @
            take (nat (out_len (stpbt_readable v rr wr buf len)))
              (out_buf (stpbt_readable v rr wr buf len)) =
            take (nat len) buf @ taken rr len"
    using a s by simp
  have fit: "nat len \<le> length buf" using assms by simp
  note p = readable_pkts_split [OF assms, of v rr wr]
  have l: "out_pkts (vhci_loop v wr buf len) = fst (split_pkts (take (nat len) buf)) \<and>
          take (nat (out_len (vhci_loop v wr buf len))) (out_buf (vhci_loop v wr buf len)) =
            snd (split_pkts (take (nat len) buf)) \<and>
          out_pkts (stpbt_loop v wr buf len) = fst (split_pkts (take (nat len) buf)) \<and>
          take (nat (out_len (stpbt_loop v wr buf len))) (out_buf (stpbt_loop v wr buf len)) =
            snd (split_pkts (take (nat len) buf))"
    using vhci_loop_split [OF assms(1) fit, of v wr] stpbt_loop_split [OF assms(1) fit, of v wr]
    by simp
  note h = turn_result [of v w buf len]
  have c: "0 < fst (get_packet_len buf len) \<and> fst (get_packet_len buf len) \<le> len \<and>
            len' = len - fst (get_packet_len buf len) \<and> 0 \<le> len' \<and> len' \<le> BUF_SIZE \<and>
            length buf' = nat BUF_SIZE \<and>
            snd pk = take (nat (fst (get_packet_len buf len))) buf \<and>
            take (nat len') buf' =
              take (nat len') (drop (nat (fst (get_packet_len buf len))) buf)"
    if t: "snd (vhci_turn v w buf len) = Some (buf', len', pk)"
  proof -
    note f = vhci_turn_Some [OF assms(1) fit t]
    from f(2,3,7) assms(2) have "0 < fst (get_packet_len buf len)"
      "fst (get_packet_len buf len) \<le> len" "len' = len - fst (get_packet_len buf len)"
      "0 \<le> len'" "len' \<le> BUF_SIZE"
      by simp_all
    moreover from f(4) assms(3) have "length buf' = nat BUF_SIZE" by simp
    moreover from f(5,7) have "snd pk = take (nat (fst (get_packet_len buf len))) buf"
      by simp
    moreover from f(6,7) have "take (nat len') buf' =
        take (nat len') (drop (nat (fst (get_packet_len buf len))) buf)"
      by simp
    ultimately show ?thesis by blast
  qed
  have d: "snd (stpbt_turn v w buf len) = snd (vhci_turn v w buf len)"
    by (rule turn_same)
  from c d have e: "snd (vhci_turn v w buf len) = Some (buf', len', pk) \<or>
          snd (stpbt_turn v w buf len) = Some (buf', len', pk) \<longrightarrow>
            0 < fst (get_packet_len buf len) \<and> fst (get_packet_len buf len) \<le> len \<and>
            len' = len - fst (get_packet_len buf len) \<and> 0 \<le> len' \<and> len' \<le> BUF_SIZE \<and>
            length buf' = nat BUF_SIZE \<and>
            snd pk = take (nat (fst (get_packet_len buf len))) buf \<and>
            take (nat len') buf' =
              take (nat len') (drop (nat (fst (get_packet_len buf len))) buf)"
    by (simp only: disj_absorb) (rule impI)
  have g: "acc_ok (vhci_buf st) (vhci_len st) \<and> acc_ok (stpbt_buf st) (stpbt_len st) \<longrightarrow>
            acc_ok (vhci_buf (fst (snd (bridge_loop v envs st))))
              (vhci_len (fst (snd (bridge_loop v envs st)))) \<and>
            acc_ok (stpbt_buf (fst (snd (bridge_loop v envs st))))
              (stpbt_len (fst (snd (bridge_loop v envs st))))"
    using bridge_loop_ok [of st v envs] by blast
  show ?thesis
    by (rule conjI [OF a conjI [OF b conjI [OF taken_fits [OF assms(1,2)]
          conjI [OF p(1) conjI [OF p(2) conjI [OF l conjI [OF h(1) conjI [OF h(2)
          conjI [OF e g]]]]]]]]])
qed

theorem accumulator_invariant_witness:
  "snd (vhci_turn False 3 ([0x04, 0x0e, 0x00, 0x01] @ replicate 4092 0) 4) =
     Some ([0x01, 0x0e, 0x00, 0x01] @ replicate 4092 0, 1, False, [0x04, 0x0e, 0x00]) \<and>
   snd (stpbt_turn False 3 ([0x04, 0x0e, 0x00, 0x01] @ replicate 4092 0) 4) =
     Some ([0x01, 0x0e, 0x00, 0x01] @ replicate 4092 0, 1, False, [0x04, 0x0e, 0x00]) \<and>
   take (nat 1) ([0x01, 0x0e, 0x00, 0x01] @ replicate 4092 0) =
     take (nat 1) (drop (nat (fst (get_packet_len ([0x04, 0x0e, 0x00, 0x01] @ replicate 4092 0) 4)))
       ([0x04, 0x0e, 0x00, 0x01] @ replicate 4092 (0::byte))) \<and>
   out_len (stpbt_readable False (Read_bytes [0x0c, 0x20, 0x00]) (\<lambda>k. 3)
     ([0x04, 0x0e, 0x00, 0x01] @ replicate 4092 0) 4) \<le> BUF_SIZE \<and>
   out_pkts (vhci_readable False (Read_bytes [0x0c, 0x20, 0x00]) (\<lambda>k. 3)
     ([0x04, 0x0e, 0x00, 0x01] @ replicate 4092 0) 4) =
     [(False, [0x04, 0x0e, 0x00]), (False, [0x01, 0x0c, 0x20, 0x00])] \<and>
   out_pkts (stpbt_readable False (Read_bytes [0x0c, 0x20, 0x00]) (\<lambda>k. 3)
     ([0x04, 0x0e, 0x00, 0x01] @ replicate 4092 0) 4) =
     [(False, [0x04, 0x0e, 0x00]), (False, [0x01, 0x0c, 0x20, 0x00])] \<and>
   out_pkts (stpbt_loop False (\<lambda>k. 3) ([0x04, 0x0e, 0x00, 0x01] @ replicate 4092 0) 4) =
     [(False, [0x04, 0x0e, 0x00])] \<and>
   take (nat (out_len (stpbt_loop False (\<lambda>k. 3) ([0x04, 0x0e, 0x00, 0x01] @ replicate 4092 0) 4)))
     (out_buf (stpbt_loop False (\<lambda>k. 3) ([0x04, 0x0e, 0x00, 0x01] @ replicate 4092 0) 4)) =
     [0x01] \<and>
   acc_ok
     (vhci_buf (fst (snd (bridge_loop False
        [\<lparr>env_running = True, env_select = Select_ready True True,
          env_vhci_read = Read_bytes [0x01, 0x03, 0x0c], env_stpbt_writes = (\<lambda>k. 4),
          env_stpbt_read = Read_bytes [0x04, 0x0e, 0x00], env_vhci_writes = (\<lambda>k. 3)\<rparr>]
        \<lparr>vhci_buf = replicate 4096 0, vhci_len = 0,
         stpbt_buf = replicate 4096 0, stpbt_len = 0\<rparr>))))
     (vhci_len (fst (snd (bridge_loop False
        [\<lparr>env_running = True, env_select = Select_ready True True,
          env_vhci_read = Read_bytes [0x01, 0x03, 0x0c], env_stpbt_writes = (\<lambda>k. 4),
          env_stpbt_read = Read_bytes [0x04, 0x0e, 0x00], env_vhci_writes = (\<lambda>k. 3)\<rparr>]
        \<lparr>vhci_buf = replicate 4096 0, vhci_len = 0,
         stpbt_buf = replicate 4096 0, stpbt_len = 0\<rparr>))))"
proof -
  define B :: "byte list" where "B = [0x04, 0x0e, 0x00, 0x01] @ replicate 4092 0"
  define B' :: "byte list" where "B' = [0x01, 0x0e, 0x00, 0x01] @ replicate 4092 0"
  define rr where "rr = Read_bytes [0x0c, 0x20, 0x00]"
  define st0 where "st0 = \<lparr>vhci_buf = replicate 4096 (0::byte), vhci_len = 0,
         stpbt_buf = replicate 4096 (0::byte), stpbt_len = 0\<rparr>"
  have h: "(0::int) \<le> 4" "(4::int) \<le> BUF_SIZE" "length B = nat BUF_SIZE"
    by (simp_all add: BUF_SIZE_def B_def)
  have o: "acc_ok (vhci_buf st0) (vhci_len st0) \<and> acc_ok (stpbt_buf st0) (stpbt_len st0)"
    by (simp add: st0_def acc_ok_def BUF_SIZE_def)
  note a = accumulator_invariant [OF h, of False rr "\<lambda>k. 3" 3 B' 1 "(False, [0x04, 0x0e, 0x00])"
      st0
      "[\<lparr>env_running = True, env_select = Select_ready True True,
          env_vhci_read = Read_bytes [0x01, 0x03, 0x0c], env_stpbt_writes = (\<lambda>k. 4),
          env_stpbt_read = Read_bytes [0x04, 0x0e, 0x00], env_vhci_writes = (\<lambda>k. 3)\<rparr>]"]
  note r = a [THEN conjunct2, THEN conjunct2, THEN conjunct2]
  note q = r [THEN conjunct2, THEN conjunct2, THEN conjunct2]
  have rhs: "(if 0 < fst (get_packet_len B 4) \<and> fst (get_packet_len B 4) \<le> 4
            then Some ((if fst (get_packet_len B 4) < 4
                        then memmove_front B (nat (fst (get_packet_len B 4)))
                               (nat (4 - fst (get_packet_len B 4)))
                        else B),
                       4 - fst (get_packet_len B 4),
                       fst (snd (get_packet_len B 4)),
                       take (nat (fst (get_packet_len B 4))) B)
            else None) = Some (B', 1, False, [0x04, 0x0e, 0x00])"
    by (simp add: B_def B'_def get_packet_len_def tag_defs memmove_front_def)
  have sp: "(if taken rr 4 = [] then []
            else fst (split_pkts (take (nat 4) B @ taken rr 4))) =
        [(False, [0x04, 0x0e, 0x00]), (False, [0x01, 0x0c, 0x20, 0x00])]"
    by (simp add: B_def rr_def taken_def BUF_SIZE_def split_pkts.simps get_packet_len_def tag_defs)
  have sl: "split_pkts (take (nat 4) B) = ([(False, [0x04, 0x0e, 0x00])], [0x01])"
    by (simp add: B_def split_pkts.simps get_packet_len_def tag_defs)
  note w1 = q [THEN conjunct1, THEN trans, OF rhs]
  note w2 = q [THEN conjunct2, THEN conjunct1, THEN trans, OF rhs]
  note e = q [THEN conjunct2, THEN conjunct2, THEN conjunct1, THEN mp, OF disjI1, OF w1]
  note w3 = e [THEN conjunct2, THEN conjunct2, THEN conjunct2, THEN conjunct2, THEN conjunct2,
      THEN conjunct2, THEN conjunct2]
  note w4 = a [THEN conjunct2, THEN conjunct1, THEN conjunct2, THEN conjunct1]
  note w5 = r [THEN conjunct1, THEN trans, OF sp]
  note w6 = r [THEN conjunct2, THEN conjunct1, THEN trans, OF sp]
  note l = r [THEN conjunct2, THEN conjunct2, THEN conjunct1, unfolded sl fst_conv snd_conv]
  note w7 = l [THEN conjunct2, THEN conjunct2, THEN conjunct1]
  note w8 = l [THEN conjunct2, THEN conjunct2, THEN conjunct2]
  note w9 = q [THEN conjunct2, THEN conjunct2, THEN conjunct2, THEN mp, OF o, THEN conjunct1]
  from w1 w2 w3 w4 w5 w6 w7 w8 w9 show ?thesis
    unfolding B_def B'_def rr_def st0_def by (intro conjI)
qed

subsection \<open>What ends the loop of main\<close>

lemma bridge_loop_left:
  "fst (bridge_loop v envs st) = (\<exists>e\<in>set envs. leaves_loop e)"
proof (induction envs arbitrary: st)
  case Nil
  then show ?case by simp
next
  case (Cons e es)
  show ?case
  proof (cases "env_running e")
    case False
    then show ?thesis by (simp add: leaves_loop_def)
  next
    case True
    show ?thesis
    proof (cases "env_select e")
      case (Select_fail err)
      with True Cons.IH [of st] show ?thesis by (simp add: leaves_loop_def)
    next
      case Select_timeout
      with True Cons.IH [of st] show ?thesis by (simp add: leaves_loop_def)
    next
      case (Select_ready a b)
      with True Cons.IH show ?thesis by (simp add: leaves_loop_def Let_def)
    qed
  qed
qed

lemma gpl_unknown:
  assumes "0 < len"
    and "buf ! 0 \<notin> {HCI_COMMAND_PKT, HCI_ACLDATA_PKT, HCI_SCODATA_PKT, HCI_EVENT_PKT, HCI_VHCI_PKT}"
  shows "get_packet_len buf len = (- 1, False, [Unknown_packet_type (buf ! 0)])"
  using assms by (simp add: get_packet_len_def)

lemma loops_unknown:
  assumes "0 < len"
    and "buf ! 0 \<notin> {HCI_COMMAND_PKT, HCI_ACLDATA_PKT, HCI_SCODATA_PKT, HCI_EVENT_PKT, HCI_VHCI_PKT}"
  shows "vhci_loop v wr buf len =
           \<lparr>out_buf = buf, out_len = len, out_pkts = [],
            out_eff = [Unknown_packet_type (buf ! 0)]\<rparr>"
    and "stpbt_loop v wr buf len =
           \<lparr>out_buf = buf, out_len = len, out_pkts = [],
            out_eff = [Unknown_packet_type (buf ! 0)]\<rparr>"
  using assms(1) gpl_unknown [OF assms]
  by (simp_all add: vhci_loop.simps [of _ _ buf len] stpbt_loop.simps [of _ _ buf len]
      vhci_turn_def stpbt_turn_def)

lemma read_at_front:
  assumes "0 < len" "len \<le> BUF_SIZE" "length buf = nat BUF_SIZE"
  shows "snd (read_at rr buf len (BUF_SIZE - len)) ! 0 = buf ! 0"
    and "length (snd (read_at rr buf len (BUF_SIZE - len))) = nat BUF_SIZE"
    and "fst (read_at rr buf len (BUF_SIZE - len)) \<le> BUF_SIZE - len"
proof -
  have p: "0 < nat len" "nat len \<le> length buf" using assms by simp_all
  show "snd (read_at rr buf len (BUF_SIZE - len)) ! 0 = buf ! 0"
    using p by (cases rr) (simp_all add: read_at_def Let_def nth_append)
  have "0 \<le> len" using assms(1) by simp
  from read_at_bytes [OF this assms(2,3)] assms(3)
  show "length (snd (read_at rr buf len (BUF_SIZE - len))) = nat BUF_SIZE"
    by (cases rr) (auto simp: read_at_def)
  from read_at_n [of rr buf len] taken_fits [OF \<open>0 \<le> len\<close> assms(2), of rr] assms(2)
  show "fst (read_at rr buf len (BUF_SIZE - len)) \<le> BUF_SIZE - len"
    by (cases rr) simp_all
qed

lemma readable_full:
  assumes "len = BUF_SIZE"
  shows "vhci_readable v (Read_bytes d) wr buf len =
           \<lparr>out_buf = buf, out_len = len, out_pkts = [], out_eff = []\<rparr>"
    and "stpbt_readable v (Read_bytes d) wr buf len =
           \<lparr>out_buf = buf, out_len = len, out_pkts = [], out_eff = []\<rparr>"
  using assms
  by (simp_all add: vhci_readable_def stpbt_readable_def read_at_def Let_def)

lemma turn_write_result:
  "fst (stpbt_turn v wret buf len) =
     fst (stpbt_turn v (fst (get_packet_len buf len)) buf len) @
     (if snd (stpbt_turn v wret buf len) \<noteq> None \<and> wret \<noteq> fst (get_packet_len buf len)
      then [Perror ''write to vhci''] else [])"
  "snd (stpbt_turn v wret buf len) = snd (stpbt_turn v wret' buf len)"
  "fst (vhci_turn v wret buf len) =
     fst (vhci_turn v (fst (get_packet_len buf len)) buf len) @
     (if snd (vhci_turn v wret buf len) \<noteq> None \<and> \<not> fst (snd (get_packet_len buf len)) \<and>
         wret \<noteq> fst (get_packet_len buf len)
      then [Perror ''write to stpbt''] else [])"
  "snd (vhci_turn v wret buf len) = snd (vhci_turn v wret' buf len)"
proof -
  obtain pl iv lg where g: "get_packet_len buf len = (pl, iv, lg)"
    by (cases "get_packet_len buf len") auto
  show "fst (stpbt_turn v wret buf len) =
     fst (stpbt_turn v (fst (get_packet_len buf len)) buf len) @
     (if snd (stpbt_turn v wret buf len) \<noteq> None \<and> wret \<noteq> fst (get_packet_len buf len)
      then [Perror ''write to vhci''] else [])"
    by (simp add: stpbt_turn_def g)
  show "snd (stpbt_turn v wret buf len) = snd (stpbt_turn v wret' buf len)"
    by (simp add: stpbt_turn_def g)
  show "fst (vhci_turn v wret buf len) =
     fst (vhci_turn v (fst (get_packet_len buf len)) buf len) @
     (if snd (vhci_turn v wret buf len) \<noteq> None \<and> \<not> fst (snd (get_packet_len buf len)) \<and>
         wret \<noteq> fst (get_packet_len buf len)
      then [Perror ''write to stpbt''] else [])"
    by (auto simp: vhci_turn_def g)
  show "snd (vhci_turn v wret buf len) = snd (vhci_turn v wret' buf len)"
    by (simp add: vhci_turn_def g)
qed

subsection \<open>An unknown packet type\<close>

text \<open>
  C4. When the pending bytes of a direction start with a byte that is none of 0x01,
  0x02, 0x03, 0x04 and 0xff, \<open>get_packet_len\<close> returns -1 and prints the unknown type
  on stderr. Whatever is read then, that direction takes no packet out and writes
  nothing; the byte stays at index 0 and the pending length does not decrease, so the
  same holds after every later read. The loop of main is not left for it: it is left
  only when \<open>running\<close> is 0 at the loop test or \<open>select\<close> fails with an errno
  other than \<open>EINTR\<close>.
\<close>

theorem unknown_type_wedges_stream:
  assumes "0 < len" "len \<le> BUF_SIZE" "length buf = nat BUF_SIZE"
    and "buf ! 0 \<notin> {HCI_COMMAND_PKT, HCI_ACLDATA_PKT, HCI_SCODATA_PKT, HCI_EVENT_PKT, HCI_VHCI_PKT}"
  shows "get_packet_len buf len = (- 1, False, [Unknown_packet_type (buf ! 0)]) \<and>
         (out_pkts (vhci_readable v rr wr buf len) = [] \<and>
          writes (out_eff (vhci_readable v rr wr buf len)) = [] \<and>
          out_buf (vhci_readable v rr wr buf len) ! 0 = buf ! 0 \<and>
          len \<le> out_len (vhci_readable v rr wr buf len) \<and>
          out_len (vhci_readable v rr wr buf len) \<le> BUF_SIZE \<and>
          length (out_buf (vhci_readable v rr wr buf len)) = nat BUF_SIZE) \<and>
         (out_pkts (stpbt_readable v rr wr buf len) = [] \<and>
          writes (out_eff (stpbt_readable v rr wr buf len)) = [] \<and>
          out_buf (stpbt_readable v rr wr buf len) ! 0 = buf ! 0 \<and>
          len \<le> out_len (stpbt_readable v rr wr buf len) \<and>
          out_len (stpbt_readable v rr wr buf len) \<le> BUF_SIZE \<and>
          length (out_buf (stpbt_readable v rr wr buf len)) = nat BUF_SIZE) \<and>
         fst (bridge_loop v envs st) = (\<exists>e\<in>set envs. leaves_loop e)"
proof -
  obtain n buf' where r: "read_at rr buf len (BUF_SIZE - len) = (n, buf')"
    by (cases "read_at rr buf len (BUF_SIZE - len)") auto
  from read_at_front [OF assms(1-3), of rr] r
  have f: "buf' ! 0 = buf ! 0" "length buf' = nat BUF_SIZE" "n \<le> BUF_SIZE - len"
    by simp_all
  have u: "buf' ! 0 \<notin> {HCI_COMMAND_PKT, HCI_ACLDATA_PKT, HCI_SCODATA_PKT, HCI_EVENT_PKT, HCI_VHCI_PKT}"
    using assms(4) f(1) by simp
  have pos: "0 < len + n" if "0 < n" using that assms(1) by simp
  have a: "out_pkts (vhci_readable v rr wr buf len) = [] \<and>
          writes (out_eff (vhci_readable v rr wr buf len)) = [] \<and>
          out_buf (vhci_readable v rr wr buf len) ! 0 = buf ! 0 \<and>
          len \<le> out_len (vhci_readable v rr wr buf len) \<and>
          out_len (vhci_readable v rr wr buf len) \<le> BUF_SIZE \<and>
          length (out_buf (vhci_readable v rr wr buf len)) = nat BUF_SIZE"
  proof (cases "0 < n")
    case True
    from loops_unknown(1) [OF pos [OF True] u, of v wr] r True f show ?thesis
      by (simp add: vhci_readable_def)
  next
    case False
    with r f assms(2) show ?thesis by (simp add: vhci_readable_def)
  qed
  have b: "out_pkts (stpbt_readable v rr wr buf len) = [] \<and>
          writes (out_eff (stpbt_readable v rr wr buf len)) = [] \<and>
          out_buf (stpbt_readable v rr wr buf len) ! 0 = buf ! 0 \<and>
          len \<le> out_len (stpbt_readable v rr wr buf len) \<and>
          out_len (stpbt_readable v rr wr buf len) \<le> BUF_SIZE \<and>
          length (out_buf (stpbt_readable v rr wr buf len)) = nat BUF_SIZE"
  proof (cases "0 < n")
    case True
    from loops_unknown(2) [OF pos [OF True] u, of v wr] r True f show ?thesis
      by (simp add: stpbt_readable_def)
  next
    case False
    with r f assms(2) show ?thesis by (simp add: stpbt_readable_def)
  qed
  show ?thesis
    by (rule conjI [OF gpl_unknown [OF assms(1,4)] conjI [OF a conjI [OF b bridge_loop_left]]])
qed

theorem unknown_type_wedges_stream_witness:
  "out_pkts (vhci_readable False (Read_bytes [0x04, 0x0e, 0x00]) (\<lambda>k. 3)
     ([0x05] @ replicate 4095 0) 1) = [] \<and>
   get_packet_len ([0x05] @ replicate 4095 0) 1 = (- 1, False, [Unknown_packet_type 0x05])"
proof -
  have h: "(0::int) < 1" "(1::int) \<le> BUF_SIZE" "length ([0x05] @ replicate 4095 (0::byte)) = nat BUF_SIZE"
    "([0x05] @ replicate 4095 (0::byte)) ! 0 \<notin>
       {HCI_COMMAND_PKT, HCI_ACLDATA_PKT, HCI_SCODATA_PKT, HCI_EVENT_PKT, HCI_VHCI_PKT}"
    by (simp_all add: BUF_SIZE_def tag_defs)
  note a = unknown_type_wedges_stream [OF h, of False "Read_bytes [0x04, 0x0e, 0x00]" "\<lambda>k. 3"
      "[]" "\<lparr>vhci_buf = [], vhci_len = 0, stpbt_buf = [], stpbt_len = 0\<rparr>"]
  from a [THEN conjunct2, THEN conjunct1, THEN conjunct1] a [THEN conjunct1]
  show ?thesis by simp
qed

text \<open>
  The loop of main does not stop on an unknown type. Here vhci delivers 05 01: the
  unknown type is printed and the loop goes on. In the next pass vhci delivers a
  complete command, which stays behind the byte 05 (the type is printed again), and
  the event read from stpbt is written to vhci as usual.
\<close>

theorem unknown_type_counterexample:
  "bridge_loop False
     [\<lparr>env_running = True, env_select = Select_ready True False,
       env_vhci_read = Read_bytes [0x05, 0x01], env_stpbt_writes = (\<lambda>k. 0),
       env_stpbt_read = Read_fail EAGAIN, env_vhci_writes = (\<lambda>k. 0)\<rparr>,
      \<lparr>env_running = True, env_select = Select_ready True True,
       env_vhci_read = Read_bytes [0x01, 0x03, 0x0c, 0x00], env_stpbt_writes = (\<lambda>k. 4),
       env_stpbt_read = Read_bytes [0x04, 0x0e, 0x00], env_vhci_writes = (\<lambda>k. 3)\<rparr>]
     \<lparr>vhci_buf = replicate 4096 0, vhci_len = 0, stpbt_buf = replicate 4096 0, stpbt_len = 0\<rparr> =
   (False,
    \<lparr>vhci_buf = [0x05, 0x01, 0x01, 0x03, 0x0c, 0x00] @ replicate 4090 0, vhci_len = 6,
     stpbt_buf = [0x04, 0x0e, 0x00] @ replicate 4093 0, stpbt_len = 0\<rparr>,
    [Unknown_packet_type 0x05, Unknown_packet_type 0x05, Write Vhci [0x04, 0x0e, 0x00]])"
  by (simp add: eval_defs)

subsection \<open>A full accumulator\<close>

text \<open>
  C5. A read asks for at most the free space \<open>BUF_SIZE - len\<close>, so the pending
  length never exceeds \<open>BUF_SIZE\<close>; bytes that do not fit are not read. When the
  array is full, a read takes nothing, and the block changes nothing and reports
  nothing. The loop of main is left only when \<open>running\<close> is 0 at the loop test or
  \<open>select\<close> fails with an errno other than \<open>EINTR\<close>.
\<close>

theorem read_bounded_by_free_space:
  assumes "0 \<le> len" "len \<le> BUF_SIZE" "length buf = nat BUF_SIZE"
  shows "fst (read_at rr buf len (BUF_SIZE - len)) \<le> BUF_SIZE - len \<and>
         out_len (vhci_readable v rr wr buf len) \<le> BUF_SIZE \<and>
         out_len (stpbt_readable v rr wr buf len) \<le> BUF_SIZE \<and>
         (len = BUF_SIZE \<longrightarrow>
            vhci_readable v (Read_bytes d) wr buf len =
              \<lparr>out_buf = buf, out_len = len, out_pkts = [], out_eff = []\<rparr> \<and>
            stpbt_readable v (Read_bytes d) wr buf len =
              \<lparr>out_buf = buf, out_len = len, out_pkts = [], out_eff = []\<rparr>) \<and>
         fst (bridge_loop v envs st) = (\<exists>e\<in>set envs. leaves_loop e)"
proof -
  from read_at_n [of rr buf len] taken_fits [OF assms(1,2), of rr] assms(2)
  have a: "fst (read_at rr buf len (BUF_SIZE - len)) \<le> BUF_SIZE - len"
    by (cases rr) simp_all
  from vhci_readable_inv [OF assms, of v rr wr]
  have b: "out_len (vhci_readable v rr wr buf len) \<le> BUF_SIZE" by simp
  with readable_same [of v rr wr buf len v wr]
  have c: "out_len (stpbt_readable v rr wr buf len) \<le> BUF_SIZE" by simp
  have d: "len = BUF_SIZE \<longrightarrow>
            vhci_readable v (Read_bytes d) wr buf len =
              \<lparr>out_buf = buf, out_len = len, out_pkts = [], out_eff = []\<rparr> \<and>
            stpbt_readable v (Read_bytes d) wr buf len =
              \<lparr>out_buf = buf, out_len = len, out_pkts = [], out_eff = []\<rparr>"
    using readable_full [of len v d wr buf] by simp
  show ?thesis
    by (rule conjI [OF a conjI [OF b conjI [OF c conjI [OF d bridge_loop_left]]]])
qed

theorem read_bounded_by_free_space_witness:
  "vhci_readable False (Read_bytes [0xaa, 0xbb]) (\<lambda>k. 0) (replicate 4096 0x02) 4096 =
     \<lparr>out_buf = replicate 4096 0x02, out_len = 4096, out_pkts = [], out_eff = []\<rparr>"
proof -
  have h: "(0::int) \<le> 4096" "(4096::int) \<le> BUF_SIZE"
    "length (replicate 4096 (0x02::byte)) = nat BUF_SIZE" "(4096::int) = BUF_SIZE"
    by (simp_all add: BUF_SIZE_def)
  note a = read_bounded_by_free_space [OF h(1-3), of "Read_bytes [0xaa, 0xbb]" False "\<lambda>k. 0"
      "[0xaa, 0xbb]" "[]" "\<lparr>vhci_buf = [], vhci_len = 0, stpbt_buf = [], stpbt_len = 0\<rparr>"]
  from a [THEN conjunct2, THEN conjunct2, THEN conjunct2, THEN conjunct1, THEN mp, OF h(4),
      THEN conjunct1]
  show ?thesis .
qed

text \<open>
  No overflow is ever reported. Here vhci delivers 4095 bytes of an ACL packet that
  announces 65535 bytes of data, then one more byte, which fills the array, then two
  bytes that have no room: nothing is printed, nothing is written, the array stays full
  and the loop goes on.
\<close>

theorem buffer_overflow_counterexample:
  "bridge_loop False
     [\<lparr>env_running = True, env_select = Select_ready True False,
       env_vhci_read = Read_bytes ([0x02, 0x00, 0x00, 0xff, 0xff] @ replicate 4090 0),
       env_stpbt_writes = (\<lambda>k. 0),
       env_stpbt_read = Read_fail EAGAIN, env_vhci_writes = (\<lambda>k. 0)\<rparr>,
      \<lparr>env_running = True, env_select = Select_ready True False,
       env_vhci_read = Read_bytes [0xaa], env_stpbt_writes = (\<lambda>k. 0),
       env_stpbt_read = Read_fail EAGAIN, env_vhci_writes = (\<lambda>k. 0)\<rparr>,
      \<lparr>env_running = True, env_select = Select_ready True False,
       env_vhci_read = Read_bytes [0xbb, 0xcc], env_stpbt_writes = (\<lambda>k. 0),
       env_stpbt_read = Read_fail EAGAIN, env_vhci_writes = (\<lambda>k. 0)\<rparr>]
     \<lparr>vhci_buf = replicate 4096 0, vhci_len = 0, stpbt_buf = replicate 4096 0, stpbt_len = 0\<rparr> =
   (False,
    \<lparr>vhci_buf = [0x02, 0x00, 0x00, 0xff, 0xff] @ replicate 4090 0 @ [0xaa], vhci_len = 4096,
     stpbt_buf = replicate 4096 0, stpbt_len = 0\<rparr>,
    [])"
  by (simp add: eval_defs)

subsection \<open>A short write\<close>

text \<open>
  C6. A write that returns another number than the length of the packet only adds the
  message of \<open>perror\<close> to the effects of the turn: the packet is removed from the
  array all the same and the packet loop goes on. The packets taken out, the array and
  the length left behind, and the writes made by a packet loop do not depend on what
  the writes return. The loop of main is left only when \<open>running\<close> is 0 at the loop
  test or \<open>select\<close> fails with an errno other than \<open>EINTR\<close>.
\<close>

theorem short_write_logged_not_fatal:
  "fst (stpbt_turn v wret buf len) =
     fst (stpbt_turn v (fst (get_packet_len buf len)) buf len) @
     (if snd (stpbt_turn v wret buf len) \<noteq> None \<and> wret \<noteq> fst (get_packet_len buf len)
      then [Perror ''write to vhci''] else []) \<and>
   snd (stpbt_turn v wret buf len) = snd (stpbt_turn v wret' buf len) \<and>
   fst (vhci_turn v wret buf len) =
     fst (vhci_turn v (fst (get_packet_len buf len)) buf len) @
     (if snd (vhci_turn v wret buf len) \<noteq> None \<and> \<not> fst (snd (get_packet_len buf len)) \<and>
         wret \<noteq> fst (get_packet_len buf len)
      then [Perror ''write to stpbt''] else []) \<and>
   snd (vhci_turn v wret buf len) = snd (vhci_turn v wret' buf len) \<and>
   (out_pkts (stpbt_loop v wr buf len) = out_pkts (stpbt_loop v wr' buf len) \<and>
    out_buf (stpbt_loop v wr buf len) = out_buf (stpbt_loop v wr' buf len) \<and>
    out_len (stpbt_loop v wr buf len) = out_len (stpbt_loop v wr' buf len) \<and>
    writes (out_eff (stpbt_loop v wr buf len)) = writes (out_eff (stpbt_loop v wr' buf len))) \<and>
   (out_pkts (vhci_loop v wr buf len) = out_pkts (vhci_loop v wr' buf len) \<and>
    out_buf (vhci_loop v wr buf len) = out_buf (vhci_loop v wr' buf len) \<and>
    out_len (vhci_loop v wr buf len) = out_len (vhci_loop v wr' buf len) \<and>
    writes (out_eff (vhci_loop v wr buf len)) = writes (out_eff (vhci_loop v wr' buf len))) \<and>
   fst (bridge_loop v envs st) = (\<exists>e\<in>set envs. leaves_loop e)"
proof -
  note t = turn_write_result [of v wret buf len]
  note ls = loops_same [rule_format]
  from ls [of v wr buf len v wr] ls [of v wr' buf len v wr]
  have s: "out_pkts (stpbt_loop v wr buf len) = out_pkts (stpbt_loop v wr' buf len) \<and>
    out_buf (stpbt_loop v wr buf len) = out_buf (stpbt_loop v wr' buf len) \<and>
    out_len (stpbt_loop v wr buf len) = out_len (stpbt_loop v wr' buf len)"
    by simp
  from ls [of v wr buf len v wr] ls [of v wr buf len v wr']
  have h: "out_pkts (vhci_loop v wr buf len) = out_pkts (vhci_loop v wr' buf len) \<and>
    out_buf (vhci_loop v wr buf len) = out_buf (vhci_loop v wr' buf len) \<and>
    out_len (vhci_loop v wr buf len) = out_len (vhci_loop v wr' buf len)"
    by simp
  from s have s': "out_pkts (stpbt_loop v wr buf len) = out_pkts (stpbt_loop v wr' buf len) \<and>
    out_buf (stpbt_loop v wr buf len) = out_buf (stpbt_loop v wr' buf len) \<and>
    out_len (stpbt_loop v wr buf len) = out_len (stpbt_loop v wr' buf len) \<and>
    writes (out_eff (stpbt_loop v wr buf len)) = writes (out_eff (stpbt_loop v wr' buf len))"
    by (simp add: stpbt_loop_writes)
  from h have h': "out_pkts (vhci_loop v wr buf len) = out_pkts (vhci_loop v wr' buf len) \<and>
    out_buf (vhci_loop v wr buf len) = out_buf (vhci_loop v wr' buf len) \<and>
    out_len (vhci_loop v wr buf len) = out_len (vhci_loop v wr' buf len) \<and>
    writes (out_eff (vhci_loop v wr buf len)) = writes (out_eff (vhci_loop v wr' buf len))"
    by (simp add: vhci_loop_writes)
  show ?thesis
    by (rule conjI [OF t(1) conjI [OF t(2) conjI [OF t(3) conjI [OF t(4)
          conjI [OF s' conjI [OF h' bridge_loop_left]]]]]])
qed

theorem short_write_logged_not_fatal_witness:
  "fst (stpbt_turn False 1 ([0x04, 0x0e, 0x00] @ replicate 4093 0) 3) =
     [Write Vhci [0x04, 0x0e, 0x00], Perror ''write to vhci''] \<and>
   snd (stpbt_turn False 1 ([0x04, 0x0e, 0x00] @ replicate 4093 0) 3) =
     Some ([0x04, 0x0e, 0x00] @ replicate 4093 0, 0, False, [0x04, 0x0e, 0x00])"
proof -
  have g: "fst (get_packet_len ([0x04, 0x0e, 0x00] @ replicate 4093 0) 3) = 3"
    by (simp add: get_packet_len_def tag_defs)
  have ok: "stpbt_turn False 3 ([0x04, 0x0e, 0x00] @ replicate 4093 0) 3 =
    ([Write Vhci [0x04, 0x0e, 0x00]],
     Some ([0x04, 0x0e, 0x00] @ replicate 4093 0, 0, False, [0x04, 0x0e, 0x00]))"
    by (simp add: stpbt_turn_def get_packet_len_def tag_defs)
  note a = short_write_logged_not_fatal [of False 1 "[0x04, 0x0e, 0x00] @ replicate 4093 0" 3 3
      "\<lambda>k. 1" "\<lambda>k. 3" "[]" "\<lparr>vhci_buf = [], vhci_len = 0, stpbt_buf = [], stpbt_len = 0\<rparr>"]
  note b = a [THEN conjunct2, THEN conjunct1, unfolded ok snd_conv]
  note c = a [THEN conjunct1, unfolded g ok b fst_conv]
  from b c show ?thesis by simp
qed

text \<open>
  A short write does not stop anything. Here stpbt delivers two events and the write
  of the first returns 1 instead of 3: the message is printed, the rest of the first
  event is not written again, the second event is written, and the loop goes on.
\<close>

theorem short_write_counterexample:
  "bridge_loop False
     [\<lparr>env_running = True, env_select = Select_ready False True,
       env_vhci_read = Read_fail EAGAIN, env_stpbt_writes = (\<lambda>k. 0),
       env_stpbt_read = Read_bytes [0x04, 0x0e, 0x00, 0x04, 0x0f, 0x00],
       env_vhci_writes = (\<lambda>k. if k = 0 then 1 else 3)\<rparr>]
     \<lparr>vhci_buf = replicate 4096 0, vhci_len = 0, stpbt_buf = replicate 4096 0, stpbt_len = 0\<rparr> =
   (False,
    \<lparr>vhci_buf = replicate 4096 0, vhci_len = 0,
     stpbt_buf = [0x04, 0x0f, 0x00, 0x04, 0x0f, 0x00] @ replicate 4090 0, stpbt_len = 0\<rparr>,
    [Write Vhci [0x04, 0x0e, 0x00], Perror ''write to vhci'', Write Vhci [0x04, 0x0f, 0x00]])"
  by (simp add: eval_defs)

subsection \<open>A failed read\<close>

text \<open>
  C7. A read that fails with \<open>EAGAIN\<close> changes nothing and reports nothing. A
  read that fails with any other errno changes nothing either and is reported with
  \<open>perror\<close>. In neither case is the loop of main left: it is left only when
  \<open>running\<close> is 0 at the loop test or \<open>select\<close> fails with an errno other than
  \<open>EINTR\<close>.
\<close>

theorem read_failure_not_fatal:
  "vhci_readable v (Read_fail err) wr buf len =
     \<lparr>out_buf = buf, out_len = len, out_pkts = [],
      out_eff = (if err = EAGAIN then [] else [Perror ''read from vhci''])\<rparr> \<and>
   stpbt_readable v (Read_fail err) wr buf len =
     \<lparr>out_buf = buf, out_len = len, out_pkts = [],
      out_eff = (if err = EAGAIN then [] else [Perror ''read from stpbt''])\<rparr> \<and>
   fst (bridge_loop v envs st) = (\<exists>e\<in>set envs. leaves_loop e)"
  by (simp add: vhci_readable_def stpbt_readable_def read_at_def read_errno_def bridge_loop_left)

theorem read_failure_not_fatal_witness:
  "vhci_readable False (Read_fail EIO) (\<lambda>k. 0) (replicate 4096 0) 0 =
     \<lparr>out_buf = replicate 4096 0, out_len = 0, out_pkts = [],
      out_eff = [Perror ''read from vhci'']\<rparr> \<and>
   \<not> fst (bridge_loop False
     [\<lparr>env_running = True, env_select = Select_ready True True,
       env_vhci_read = Read_fail EIO, env_stpbt_writes = (\<lambda>k. 0),
       env_stpbt_read = Read_fail EAGAIN, env_vhci_writes = (\<lambda>k. 0)\<rparr>]
     \<lparr>vhci_buf = replicate 4096 0, vhci_len = 0, stpbt_buf = replicate 4096 0, stpbt_len = 0\<rparr>)"
  using read_failure_not_fatal [of False EIO "\<lambda>k. 0" "replicate 4096 0" 0
      "[\<lparr>env_running = True, env_select = Select_ready True True,
       env_vhci_read = Read_fail EIO, env_stpbt_writes = (\<lambda>k. 0),
       env_stpbt_read = Read_fail EAGAIN, env_vhci_writes = (\<lambda>k. 0)\<rparr>]"
      "\<lparr>vhci_buf = replicate 4096 0, vhci_len = 0, stpbt_buf = replicate 4096 0, stpbt_len = 0\<rparr>"]
  by (simp add: leaves_loop_def del: bridge_loop.simps)

text \<open>
  A read failure other than \<open>EAGAIN\<close> does not stop the loop. Here the read of
  vhci fails with \<open>EIO\<close>: the message is printed and the loop goes on, and in the
  next pass the event read from stpbt is written to vhci.
\<close>

theorem read_failure_counterexample:
  "bridge_loop False
     [\<lparr>env_running = True, env_select = Select_ready True False,
       env_vhci_read = Read_fail EIO, env_stpbt_writes = (\<lambda>k. 0),
       env_stpbt_read = Read_fail EAGAIN, env_vhci_writes = (\<lambda>k. 0)\<rparr>,
      \<lparr>env_running = True, env_select = Select_ready False True,
       env_vhci_read = Read_fail EAGAIN, env_stpbt_writes = (\<lambda>k. 0),
       env_stpbt_read = Read_bytes [0x04, 0x0e, 0x00], env_vhci_writes = (\<lambda>k. 3)\<rparr>]
     \<lparr>vhci_buf = replicate 4096 0, vhci_len = 0, stpbt_buf = replicate 4096 0, stpbt_len = 0\<rparr> =
   (False,
    \<lparr>vhci_buf = replicate 4096 0, vhci_len = 0,
     stpbt_buf = [0x04, 0x0e, 0x00] @ replicate 4093 0, stpbt_len = 0\<rparr>,
    [Perror ''read from vhci'', Write Vhci [0x04, 0x0e, 0x00]])"
  by (simp add: eval_defs)

subsection \<open>The exit status\<close>

text \<open>
  C8. \<open>main\<close> returns 1 when \<open>/dev/vhci\<close> or \<open>/dev/stpbt\<close> cannot be opened
  or non-blocking mode cannot be set. Otherwise it returns 0 once the loop is left,
  be it that \<open>running\<close> was 0 at the loop test or that \<open>select\<close> failed with an
  errno other than \<open>EINTR\<close>; as long as neither happens it does not return. When both
  devices were opened and \<open>main\<close> returns, its last two effects are the closing of
  stpbt and of vhci.
\<close>

theorem exit_status:
  "fst (main argv s vbuf sbuf envs) =
     (if open_vhci s < 0 \<or> open_stpbt s < 0 \<or> vhci_getfl s < 0 \<or> vhci_setfl s < 0 \<or>
         stpbt_getfl s < 0 \<or> stpbt_setfl s < 0 then Some 1
      else if (\<exists>e\<in>set envs. leaves_loop e) then Some 0
      else None) \<and>
   (0 \<le> open_vhci s \<and> 0 \<le> open_stpbt s \<and> fst (main argv s vbuf sbuf envs) \<noteq> None \<longrightarrow>
      (\<exists>eff. snd (main argv s vbuf sbuf envs) = eff @ [Close Stpbt, Close Vhci]))"
proof -
  define v where "v = (length argv > 1 \<and> argv ! 1 = ''-v'')"
  define st0 where "st0 = \<lparr>vhci_buf = vbuf, vhci_len = 0, stpbt_buf = sbuf, stpbt_len = 0\<rparr>"
  obtain left st eff where b: "bridge_loop v envs st0 = (left, st, eff)"
    by (cases "bridge_loop v envs st0") auto
  with bridge_loop_left [of v envs st0] have l: "left = (\<exists>e\<in>set envs. leaves_loop e)"
    by simp
  show ?thesis
    using b l unfolding main_def Let_def v_def [symmetric] st0_def [symmetric]
    by (auto simp: set_nonblocking_def cleanup_def)
qed

theorem exit_status_witness:
  "fst (main [''vhci_stpbt_bridge'', ''-v'']
     \<lparr>open_vhci = 3, open_stpbt = 4, vhci_getfl = 2, vhci_setfl = 0,
      stpbt_getfl = 2, stpbt_setfl = 0\<rparr> (replicate 4096 0) (replicate 4096 0)
     [\<lparr>env_running = True, env_select = Select_timeout,
       env_vhci_read = Read_fail EAGAIN, env_stpbt_writes = (\<lambda>k. 0),
       env_stpbt_read = Read_fail EAGAIN, env_vhci_writes = (\<lambda>k. 0)\<rparr>,
      \<lparr>env_running = False, env_select = Select_timeout,
       env_vhci_read = Read_fail EAGAIN, env_stpbt_writes = (\<lambda>k. 0),
       env_stpbt_read = Read_fail EAGAIN, env_vhci_writes = (\<lambda>k. 0)\<rparr>]) = Some 0 \<and>
   (\<exists>eff. snd (main [''vhci_stpbt_bridge'', ''-v'']
     \<lparr>open_vhci = 3, open_stpbt = 4, vhci_getfl = 2, vhci_setfl = 0,
      stpbt_getfl = 2, stpbt_setfl = 0\<rparr> (replicate 4096 0) (replicate 4096 0)
     [\<lparr>env_running = True, env_select = Select_timeout,
       env_vhci_read = Read_fail EAGAIN, env_stpbt_writes = (\<lambda>k. 0),
       env_stpbt_read = Read_fail EAGAIN, env_vhci_writes = (\<lambda>k. 0)\<rparr>,
      \<lparr>env_running = False, env_select = Select_timeout,
       env_vhci_read = Read_fail EAGAIN, env_stpbt_writes = (\<lambda>k. 0),
       env_stpbt_read = Read_fail EAGAIN, env_vhci_writes = (\<lambda>k. 0)\<rparr>]) =
     eff @ [Close Stpbt, Close Vhci])"
proof -
  define envs where "envs =
     [\<lparr>env_running = True, env_select = Select_timeout,
       env_vhci_read = Read_fail EAGAIN, env_stpbt_writes = (\<lambda>k. 0 :: int),
       env_stpbt_read = Read_fail EAGAIN, env_vhci_writes = (\<lambda>k. 0 :: int)\<rparr>,
      \<lparr>env_running = False, env_select = Select_timeout,
       env_vhci_read = Read_fail EAGAIN, env_stpbt_writes = (\<lambda>k. 0),
       env_stpbt_read = Read_fail EAGAIN, env_vhci_writes = (\<lambda>k. 0)\<rparr>]"
  define s where "s = \<lparr>open_vhci = 3, open_stpbt = 4, vhci_getfl = 2, vhci_setfl = 0,
      stpbt_getfl = 2, stpbt_setfl = 0\<rparr>"
  note a = exit_status [of "[''vhci_stpbt_bridge'', ''-v'']" s "replicate 4096 0"
      "replicate 4096 0" envs]
  have l: "\<exists>e\<in>set envs. leaves_loop e"
    by (simp add: envs_def leaves_loop_def)
  have o: "\<not> (open_vhci s < 0 \<or> open_stpbt s < 0 \<or> vhci_getfl s < 0 \<or> vhci_setfl s < 0 \<or>
         stpbt_getfl s < 0 \<or> stpbt_setfl s < 0)" "0 \<le> open_vhci s" "0 \<le> open_stpbt s"
    by (simp_all add: s_def)
  from a [THEN conjunct1] l o(1)
  have b: "fst (main [''vhci_stpbt_bridge'', ''-v''] s (replicate 4096 0) (replicate 4096 0) envs) =
      Some 0"
    by (simp only: if_True if_False)
  then have "fst (main [''vhci_stpbt_bridge'', ''-v''] s (replicate 4096 0) (replicate 4096 0) envs) \<noteq>
      None"
    by simp
  with a [THEN conjunct2] o(2,3)
  have c: "\<exists>eff. snd (main [''vhci_stpbt_bridge'', ''-v''] s (replicate 4096 0) (replicate 4096 0)
      envs) = eff @ [Close Stpbt, Close Vhci]"
    by blast
  from b c show ?thesis unfolding envs_def s_def by (rule conjI)
qed

text \<open>
  The exit status is 0 also when the loop ends on an error: here \<open>select\<close> fails
  with \<open>EIO\<close>, the message is printed, both devices are closed and \<open>main\<close>
  returns 0.
\<close>

theorem exit_status_counterexample:
  "main [''vhci_stpbt_bridge'']
     \<lparr>open_vhci = 3, open_stpbt = 4, vhci_getfl = 2, vhci_setfl = 0,
      stpbt_getfl = 2, stpbt_setfl = 0\<rparr> (replicate 4096 0) (replicate 4096 0)
     [\<lparr>env_running = True, env_select = Select_fail EIO,
       env_vhci_read = Read_fail EAGAIN, env_stpbt_writes = (\<lambda>k. 0),
       env_stpbt_read = Read_fail EAGAIN, env_vhci_writes = (\<lambda>k. 0)\<rparr>] =
   (Some 0, [Perror ''select'', Close Stpbt, Close Vhci])"
  by (simp add: main_def set_nonblocking_def cleanup_def)

end
